theory Spec2Isabelle
  imports Main "HOL-Library.Sublist"
begin

section \<open>JavaScript values and strings\<close>

text \<open>
  A JavaScript string is modelled as a HOL \<open>string\<close>: a list of 8-bit code units (the
  Latin-1 range of the UTF-16 code units the program works on). The only other values the
  modelled code can hold in a string position are \<open>undefined\<close> and \<open>null\<close>.
\<close>

datatype jsval = JUndefined | JNull | JStr string

text \<open>Truthiness of a value (\<open>ToBoolean\<close>): the empty string, null and undefined are falsy.\<close>

fun truthy :: "jsval \<Rightarrow> bool" where
  "truthy JUndefined = False"
| "truthy JNull = False"
| "truthy (JStr s) = (s \<noteq> [])"

text \<open>The operator \<open>a || b\<close>: the left operand when it is truthy, else the right one.\<close>

definition js_or :: "jsval \<Rightarrow> jsval \<Rightarrow> jsval" where
  "js_or a b = (if truthy a then a else b)"

text \<open>\<open>(s || "")\<close> read as a string.\<close>

fun or_empty :: "jsval \<Rightarrow> string" where
  "or_empty (JStr s) = s"
| "or_empty JUndefined = []"
| "or_empty JNull = []"

text \<open>
  White space: the members of the regular-expression class \<open>\s\<close> (which \<open>trim\<close> strips
  too) among the code units below 256: TAB, LF, VT, FF, CR, SPACE and NBSP.
\<close>

definition is_space :: "char \<Rightarrow> bool" where
  "is_space c = ((of_char c :: nat) \<in> {9, 10, 11, 12, 13, 32, 160})"

text \<open>\<open>s.replace(/\s+/g, " ")\<close>: every maximal run of white space becomes one space.\<close>

function collapse_ws :: "string \<Rightarrow> string" where
  "collapse_ws [] = []"
| "collapse_ws (c # cs) =
     (if is_space c then CHR '' '' # collapse_ws (dropWhile is_space cs)
      else c # collapse_ws cs)"
  by pat_completeness auto
termination
  by (relation "measure length") (auto simp: le_imp_less_Suc length_dropWhile_le)

text \<open>\<open>s.trim()\<close>.\<close>

definition trim :: "string \<Rightarrow> string" where
  "trim s = rev (dropWhile is_space (rev (dropWhile is_space s)))"

text \<open>\<open>normalize(s) = (s || "").replace(/\s+/g, " ").trim()\<close>.\<close>

definition normalize :: "jsval \<Rightarrow> string" where
  "normalize s = trim (collapse_ws (or_empty s))"

text \<open>
  \<open>toLowerCase\<close> on the modelled code units: A-Z and the Latin-1 capitals
  (0xC0-0xDE but the multiplication sign 0xD7) move up by 32.
\<close>

definition lower_char :: "char \<Rightarrow> char" where
  "lower_char c =
     (let n = (of_char c :: nat) in
      if (65 \<le> n \<and> n \<le> 90) \<or> (192 \<le> n \<and> n \<le> 222 \<and> n \<noteq> 215)
      then char_of (n + 32) else c)"

definition toLowerCase :: "string \<Rightarrow> string" where
  "toLowerCase s = map lower_char s"

text \<open>\<open>h.startsWith(a)\<close> and \<open>h.includes(a)\<close>: \<open>a\<close> occurs in \<open>h\<close> as a contiguous run.\<close>

fun startsWith :: "string \<Rightarrow> string \<Rightarrow> bool" where
  "startsWith h [] = True"
| "startsWith [] (a # as) = False"
| "startsWith (c # cs) (a # as) = (c = a \<and> startsWith cs as)"

fun includes_str :: "string \<Rightarrow> string \<Rightarrow> bool" where
  "includes_str [] a = startsWith [] a"
| "includes_str (c # cs) a = (startsWith (c # cs) a \<or> includes_str cs a)"

section \<open>Deduplication by key\<close>

text \<open>
  \<open>uniqBy(arr, keyFn)\<close>: the loop over \<open>arr\<close> with its two local variables, the set
  \<open>seen\<close> and the array \<open>out\<close>. An element whose key is falsy or already seen is skipped.
\<close>

fun uniqBy_loop :: "('a \<Rightarrow> jsval) \<Rightarrow> 'a list \<Rightarrow> jsval set \<Rightarrow> 'a list \<Rightarrow> 'a list" where
  "uniqBy_loop keyFn [] seen out = out"
| "uniqBy_loop keyFn (x # xs) seen out =
     (let k = keyFn x in
      if \<not> truthy k \<or> k \<in> seen then uniqBy_loop keyFn xs seen out
      else uniqBy_loop keyFn xs (insert k seen) (out @ [x]))"

definition uniqBy :: "'a list \<Rightarrow> ('a \<Rightarrow> jsval) \<Rightarrow> 'a list" where
  "uniqBy arr keyFn = uniqBy_loop keyFn arr {} []"

section \<open>Records of the listing\<close>

text \<open>
  An entry of \<open>files\<close> and a listing record, with the keys in the order the object literal
  of \<open>scrapePageRows\<close> creates them. The key \<open>id\<close> is \<open>listing_id\<close> here, and the
  optional key \<open>_detail_error\<close> is \<open>detail_error\<close> (\<open>None\<close> when the object has no such key).
\<close>

record file_entry =
  title :: string
  Url :: string

record listing =
  listing_id :: string
  contract_number :: string
  contract_title :: string
  open_date :: string
  deadline_date :: string
  agency_code :: string
  unspc :: string
  contact_email :: string
  files :: "file_entry list"
  bookmarkable_link_url :: jsval
  agency_full :: string
  detail_error :: "string option"

subsection \<open>\<open>JSON.stringify\<close> of a record\<close>

definition hex_digit :: "nat \<Rightarrow> char" where
  "hex_digit n = ''0123456789abcdef'' ! (n mod 16)"

text \<open>\<open>QuoteJSONString\<close>: the escapes of one code unit.\<close>

definition json_escape :: "char \<Rightarrow> string" where
  "json_escape c =
     (let n = (of_char c :: nat) in
      if n = 8 then [CHR 0x5C, CHR ''b'']
      else if n = 9 then [CHR 0x5C, CHR ''t'']
      else if n = 10 then [CHR 0x5C, CHR ''n'']
      else if n = 12 then [CHR 0x5C, CHR ''f'']
      else if n = 13 then [CHR 0x5C, CHR ''r'']
      else if n = 34 then [CHR 0x5C, CHR 0x22]
      else if n = 92 then [CHR 0x5C, CHR 0x5C]
      else if n < 32 then [CHR 0x5C, CHR ''u'', CHR ''0'', CHR ''0'', hex_digit (n div 16), hex_digit n]
      else [c])"

definition json_quote :: "string \<Rightarrow> string" where
  "json_quote s = CHR 0x22 # concat (map json_escape s) @ [CHR 0x22]"

fun join_comma :: "string list \<Rightarrow> string" where
  "join_comma [] = []"
| "join_comma [x] = x"
| "join_comma (x # y # ys) = x @ '','' @ join_comma (y # ys)"

definition json_prop :: "string \<Rightarrow> string \<Rightarrow> string" where
  "json_prop k v = json_quote k @ '':'' @ v"

text \<open>A property whose value is \<open>undefined\<close> is left out of the serialised object.\<close>

fun json_opt_prop :: "string \<Rightarrow> jsval \<Rightarrow> string list" where
  "json_opt_prop k JUndefined = []"
| "json_opt_prop k JNull = [json_prop k ''null'']"
| "json_opt_prop k (JStr s) = [json_prop k (json_quote s)]"

definition stringify_file :: "file_entry \<Rightarrow> string" where
  "stringify_file f =
     ''{'' @ join_comma [json_prop ''title'' (json_quote (title f)),
                         json_prop ''Url'' (json_quote (Url f))] @ ''}''"

definition stringify :: "listing \<Rightarrow> string" where
  "stringify r =
     ''{'' @ join_comma
       ([json_prop ''id'' (json_quote (listing_id r)),
         json_prop ''contract_number'' (json_quote (contract_number r)),
         json_prop ''contract_title'' (json_quote (contract_title r)),
         json_prop ''open_date'' (json_quote (open_date r)),
         json_prop ''deadline_date'' (json_quote (deadline_date r)),
         json_prop ''agency_code'' (json_quote (agency_code r)),
         json_prop ''unspc'' (json_quote (unspc r)),
         json_prop ''contact_email'' (json_quote (contact_email r)),
         json_prop ''files'' (''['' @ join_comma (map stringify_file (files r)) @ '']'')]
        @ json_opt_prop ''bookmarkable_link_url'' (bookmarkable_link_url r)
        @ [json_prop ''agency_full'' (json_quote (agency_full r))]
        @ (case detail_error r of None \<Rightarrow> []
           | Some e \<Rightarrow> [json_prop ''_detail_error'' (json_quote e)]))
     @ ''}''"

section \<open>Field Resolver: \<open>findCol\<close>\<close>

text \<open>\<open>Array.prototype.findIndex\<close>: the first index whose element passes, else \<open>-1\<close>.\<close>

fun findIndex :: "('a \<Rightarrow> bool) \<Rightarrow> 'a list \<Rightarrow> int" where
  "findIndex P [] = - 1"
| "findIndex P (x # xs) =
     (if P x then 0 else (let r = findIndex P xs in if r < 0 then - 1 else r + 1))"

text \<open>\<open>lower(s) = norm(s).toLowerCase()\<close>, applied to the \<open>innerText\<close> of every header cell.\<close>

definition lower :: "string \<Rightarrow> string" where
  "lower s = toLowerCase (normalize (JStr s))"

definition findCol :: "string list \<Rightarrow> string list \<Rightarrow> int" where
  "findCol ths aliases = findIndex (\<lambda>h. list_ex (\<lambda>a. includes_str h a) aliases) ths"

datatype field = Contract_number | Contract_title | Open_date | Deadline_date | Agency_code | Unspc

fun aliases_of :: "field \<Rightarrow> string list" where
  "aliases_of Contract_number = [''contract'', ''solicitation'', ''bid'', ''#'', ''number'']"
| "aliases_of Contract_title = [''title'', ''description'']"
| "aliases_of Open_date = [''open'', ''posted'', ''issue'', ''start'']"
| "aliases_of Deadline_date = [''deadline'', ''close'', ''closing'', ''due'']"
| "aliases_of Agency_code = [''agency'', ''dept'', ''department'']"
| "aliases_of Unspc = [''unspsc'', ''unspc'', ''commodity'', ''category'']"

text \<open>The object \<open>colIdx\<close> built from the header cells of the page.\<close>

definition colIdx :: "string list \<Rightarrow> field \<Rightarrow> int" where
  "colIdx header_cells k = findCol (map lower header_cells) (aliases_of k)"

section \<open>Row Extractor: the body of \<open>scrapePageRows\<close>\<close>

text \<open>
  A grid row \<open>tr.jqgrow\<close>: its \<open>id\<close> attribute (\<open>getAttribute\<close> gives null when there is
  none) and the \<open>innerText\<close> of its \<open>td\<close> cells.
\<close>

record grid_row =
  id_attr :: "string option"
  cells :: "string list"

text \<open>\<open>tds[j]\<close>: reading an array outside its range gives \<open>undefined\<close>.\<close>

definition js_nth :: "string list \<Rightarrow> int \<Rightarrow> jsval" where
  "js_nth xs j = (if 0 \<le> j \<and> j < int (length xs) then JStr (xs ! nat j) else JUndefined)"

text \<open>\<open>get(k) = colIdx[k] >= 0 ? tds[colIdx[k]] || "" : ""\<close>.\<close>

definition get_cell :: "(field \<Rightarrow> int) \<Rightarrow> string list \<Rightarrow> field \<Rightarrow> string" where
  "get_cell cols tds k = (if cols k \<ge> 0 then or_empty (js_or (js_nth tds (cols k)) (JStr [])) else [])"

definition extract_row :: "(field \<Rightarrow> int) \<Rightarrow> grid_row \<Rightarrow> listing" where
  "extract_row cols tr =
     (let tds = map (\<lambda>td. normalize (JStr td)) (cells tr);
          ident = (case id_attr tr of None \<Rightarrow> [] | Some a \<Rightarrow> a)
      in \<lparr> listing_id = ident,
           contract_number = get_cell cols tds Contract_number,
           contract_title = get_cell cols tds Contract_title,
           open_date = get_cell cols tds Open_date,
           deadline_date = get_cell cols tds Deadline_date,
           agency_code = get_cell cols tds Agency_code,
           unspc = get_cell cols tds Unspc,
           contact_email = [],
           files = [],
           bookmarkable_link_url =
             (if ident \<noteq> [] then JStr (''/Bids/GetBidDetail?id='' @ ident) else JStr []),
           agency_full = [],
           detail_error = None \<rparr>)"

text \<open>\<open>scrapePageRows\<close> on the header cells and the grid rows the page shows.\<close>

definition scrapePageRows :: "string list \<Rightarrow> grid_row list \<Rightarrow> listing list" where
  "scrapePageRows header_cells grid_rows =
     filter (\<lambda>r. contract_number r \<noteq> [] \<or> contract_title r \<noteq> [])
       (map (extract_row (colIdx header_cells)) grid_rows)"

section \<open>Pagination Driver: \<open>findAndClickNext\<close>\<close>

text \<open>
  A JavaScript exception is an \<open>Error\<close> object with a name and a message; the time-out
  of a wait of the driver is one of them.
\<close>

datatype js_error = JsError (err_name: string) (err_message: string)

definition TimeoutError :: js_error where
  "TimeoutError = JsError ''TimeoutError'' ''Waiting failed: timeout exceeded''"

text \<open>
  What the document shows at one instant, as far as the driver reads it: the first grid
  row \<open>#jqGridBids tr.jqgrow\<close> (its \<open>id\<close> attribute and its \<open>innerText\<close>), if there is
  one, and the value of the page-number input, if there is one.
\<close>

record snapshot =
  first_row :: "(string option \<times> string) option"
  pg_input :: "string option"

text \<open>The next-page control \<open>td#next_jqg1\<close>: absent, or present with or without the class \<open>disabled\<close>.\<close>

datatype next_control = Absent | Present (is_disabled: bool)

text \<open>
  One page of the grid as the scraper meets it: whether the rendered rows appear before
  the time-out of \<open>waitForRenderedRows\<close>, the header cells and grid rows read by
  \<open>scrapePageRows\<close>, the next-page control, the view before the click, the view right after
  the click (when \<open>before\<close> is read) and the views on which \<open>waitForFunction\<close> evaluates its
  predicate until its time-out of 30 seconds.
\<close>

record page_view =
  rendered :: bool
  header_cells :: "string list"
  grid_rows :: "grid_row list"
  next_ctl :: next_control
  shown :: snapshot
  at_click :: snapshot
  polls :: "snapshot list"

text \<open>
  \<open>prev.firstRowId\<close>, \<open>prev.firstRowText\<close> and \<open>prev.pageNum\<close> where \<open>prev\<close> is a string:
  a string primitive has no property of these names, so the read gives \<open>undefined\<close>.
\<close>

definition string_prop :: "string \<Rightarrow> string \<Rightarrow> jsval" where
  "string_prop s name = JUndefined"

text \<open>The value of \<open>before\<close>: the trimmed text of the first row, or the empty string.\<close>

definition first_row_text :: "snapshot \<Rightarrow> string" where
  "first_row_text v = (case first_row v of None \<Rightarrow> [] | Some (a, txt) \<Rightarrow> trim txt)"

text \<open>The predicate handed to \<open>waitForFunction\<close>, with \<open>prev = before\<close>.\<close>

definition page_changed :: "string \<Rightarrow> snapshot \<Rightarrow> bool" where
  "page_changed prev v =
     (let nowId = (case first_row v of None \<Rightarrow> []
                   | Some (a, txt) \<Rightarrow> (case a of None \<Rightarrow> [] | Some i \<Rightarrow> i));
          nowText = (case first_row v of None \<Rightarrow> [] | Some (a, txt) \<Rightarrow> trim txt);
          nowPage = (case pg_input v of None \<Rightarrow> [] | Some x \<Rightarrow> trim x)
      in (nowId \<noteq> [] \<and> JStr nowId \<noteq> string_prop prev ''firstRowId'') \<or>
         (nowText \<noteq> [] \<and> JStr nowText \<noteq> string_prop prev ''firstRowText'') \<or>
         (nowPage \<noteq> [] \<and> JStr nowPage \<noteq> string_prop prev ''pageNum''))"

text \<open>
  \<open>page.waitForFunction(pred, {timeout})\<close>: resolves as soon as the predicate is truthy on
  a view, and rejects with a time-out error when it is on none of them.
\<close>

definition waitForFunction :: "(snapshot \<Rightarrow> bool) \<Rightarrow> snapshot list \<Rightarrow> js_error + unit" where
  "waitForFunction pred views = (if list_ex pred views then Inr () else Inl TimeoutError)"

text \<open>
  \<open>findAndClickNext(page)\<close>: the test of the control, the click (taken to succeed on a
  control that is present), the read of \<open>before\<close> after the click, and the wait.
\<close>

definition findAndClickNext :: "page_view \<Rightarrow> js_error + bool" where
  "findAndClickNext pg =
     (let disabled = (case next_ctl pg of Absent \<Rightarrow> True | Present d \<Rightarrow> d) in
      if disabled then Inr False
      else (let before_text = first_row_text (at_click pg) in
            case waitForFunction (page_changed before_text) (polls pg) of
              Inl e \<Rightarrow> Inl e
            | Inr u \<Rightarrow> Inr True))"

section \<open>Directory Walker: the page loop of \<open>run\<close>\<close>

definition MAX_PAGES :: nat where "MAX_PAGES = 300"
definition MAX_ITEMS :: nat where "MAX_ITEMS = 5000"
definition DETAILS_CONCURRENCY :: nat where "DETAILS_CONCURRENCY = 4"

text \<open>\<open>waitForRenderedRows\<close>: its waits reject with a time-out when the rows do not appear.\<close>

definition waitForRenderedRows :: "page_view \<Rightarrow> js_error + unit" where
  "waitForRenderedRows pg = (if rendered pg then Inr () else Inl TimeoutError)"

text \<open>The \<open>rows.map\<close> of the loop: seven fields are normalised again.\<close>

definition normalize_row :: "listing \<Rightarrow> listing" where
  "normalize_row r =
     r\<lparr> contract_number := normalize (JStr (contract_number r)),
        contract_title := normalize (JStr (contract_title r)),
        open_date := normalize (JStr (open_date r)),
        deadline_date := normalize (JStr (deadline_date r)),
        agency_code := normalize (JStr (agency_code r)),
        unspc := normalize (JStr (unspc r)),
        bookmarkable_link_url := JStr (normalize (bookmarkable_link_url r)) \<rparr>"

text \<open>The key of the per-page loop: \<open>r.bookmarkable_link_url || r.contract_number || JSON.stringify(r)\<close>.\<close>

definition page_key :: "listing \<Rightarrow> jsval" where
  "page_key r =
     js_or (js_or (bookmarkable_link_url r) (JStr (contract_number r))) (JStr (stringify r))"

text \<open>The key of the final pass: \<open>r.bookmarkable_link_url || r.contract_number\<close>.\<close>

definition final_key :: "listing \<Rightarrow> jsval" where
  "final_key r = js_or (bookmarkable_link_url r) (JStr (contract_number r))"

text \<open>
  The inner loop \<open>for (const r of rows)\<close> on the state \<open>(all, seenLinks)\<close>;
  \<open>agencyMap.get(code) || ""\<close> is the joined name.
\<close>

fun add_rows :: "(string \<rightharpoonup> string) \<Rightarrow> listing list \<Rightarrow> listing list \<times> jsval set
    \<Rightarrow> listing list \<times> jsval set" where
  "add_rows agencyMap [] (all, seenLinks) = (all, seenLinks)"
| "add_rows agencyMap (r # rs) (all, seenLinks) =
     (let key = page_key r in
      if key \<in> seenLinks then add_rows agencyMap rs (all, seenLinks)
      else add_rows agencyMap rs
             (all @ [r\<lparr> agency_full := (case agencyMap (agency_code r) of None \<Rightarrow> []
                                         | Some v \<Rightarrow> v) \<rparr>],
              insert key seenLinks))"

text \<open>
  The body of one pass of the page loop on the page shown: an exception (\<open>Inl\<close>), or the new
  state with \<open>True\<close> to go on to the next pass and \<open>False\<close> after a \<open>break\<close>.
  \<open>waitForAnyRows\<close> catches its own time-outs and changes nothing, so it has no part here.
\<close>

definition walk_page :: "(string \<rightharpoonup> string) \<Rightarrow> nat \<Rightarrow> page_view \<Rightarrow> listing list \<times> jsval set
    \<Rightarrow> js_error + (bool \<times> (listing list \<times> jsval set))" where
  "walk_page agencyMap maxItems pg st =
     (case waitForRenderedRows pg of
        Inl e \<Rightarrow> Inl e
      | Inr u \<Rightarrow>
          (let rows = map normalize_row (scrapePageRows (header_cells pg) (grid_rows pg));
               st' = add_rows agencyMap rows st
           in if length (fst st') \<ge> maxItems then Inr (False, st')
              else (case findAndClickNext pg of
                      Inl e \<Rightarrow> Inl e
                    | Inr clicked \<Rightarrow> if \<not> clicked then Inr (False, st') else Inr (True, st'))))"

text \<open>
  \<open>for (let p = 1; p <= MAX_PAGES; p++)\<close>; \<open>site p\<close> is the page the grid shows in pass \<open>p\<close>.
  The result is the array \<open>all\<close> after the loop, or the exception that left it.
\<close>

function walk_loop :: "(nat \<Rightarrow> page_view) \<Rightarrow> (string \<rightharpoonup> string) \<Rightarrow> nat \<Rightarrow> nat \<Rightarrow> nat
    \<Rightarrow> listing list \<times> jsval set \<Rightarrow> js_error + listing list" where
  "walk_loop site agencyMap maxPages maxItems p st =
     (if p \<le> maxPages then
        (case walk_page agencyMap maxItems (site p) st of
           Inl e \<Rightarrow> Inl e
         | Inr (go_on, st') \<Rightarrow>
             if go_on then walk_loop site agencyMap maxPages maxItems (p + 1) st'
             else Inr (fst st'))
      else Inr (fst st))"
  by pat_completeness auto
termination
  by (relation "measure (\<lambda>(site, agencyMap, maxPages, maxItems, p, st). maxPages + 1 - p)") auto

declare walk_loop.simps [simp del]

text \<open>The final pass \<open>all = uniqBy(all, (r) => r.bookmarkable_link_url || r.contract_number)\<close>.\<close>

definition final_dedupe :: "listing list \<Rightarrow> listing list" where
  "final_dedupe all = uniqBy all final_key"

text \<open>The walk of \<open>run\<close>: the page loop from page 1 on the empty state, then the final pass.\<close>

definition walk :: "(nat \<Rightarrow> page_view) \<Rightarrow> (string \<rightharpoonup> string) \<Rightarrow> nat \<Rightarrow> nat
    \<Rightarrow> js_error + listing list" where
  "walk site agencyMap maxPages maxItems =
     (case walk_loop site agencyMap maxPages maxItems 1 ([], {}) of
        Inl e \<Rightarrow> Inl e
      | Inr all \<Rightarrow> Inr (final_dedupe all))"

section \<open>Detail Enricher\<close>

text \<open>The object the in-page function of \<open>scrapeDetailsViaApi\<close> returns.\<close>

record detail =
  detail_contact_email :: string
  detail_files :: "file_entry list"

text \<open>\<open>Error.prototype.toString\<close> and \<open>String(e?.message || e)\<close>.\<close>

definition error_toString :: "js_error \<Rightarrow> string" where
  "error_toString e =
     (if err_name e = [] then err_message e
      else if err_message e = [] then err_name e
      else err_name e @ '': '' @ err_message e)"

definition error_text :: "js_error \<Rightarrow> string" where
  "error_text e = (if err_message e \<noteq> [] then err_message e else error_toString e)"

text \<open>
  \<open>scrapeDetailsViaApi(page, baseRecord)\<close>. The first argument is the outcome of
  \<open>page.evaluate\<close> for this record (the two fetches and the parsing done in the page): the
  object it returns, or the exception it raises. It is asked for only when the id is not
  empty.
\<close>

definition scrapeDetailsViaApi :: "js_error + detail \<Rightarrow> listing \<Rightarrow> listing" where
  "scrapeDetailsViaApi evaluated baseRecord =
     (if listing_id baseRecord = [] then baseRecord
      else (case evaluated of
              Inr d \<Rightarrow> baseRecord\<lparr> contact_email := detail_contact_email d,
                                   files := detail_files d \<rparr>
            | Inl e \<Rightarrow> baseRecord\<lparr> detail_error := Some (error_text e) \<rparr>))"

subsection \<open>The worker pool of \<open>run\<close>\<close>

text \<open>
  \<open>out[i] = v\<close> on a JavaScript array: a write past the end extends the array and leaves
  holes, which read as \<open>undefined\<close> like every index past the end. A hole is \<open>None\<close>.
\<close>

definition js_store :: "'a option list \<Rightarrow> nat \<Rightarrow> 'a \<Rightarrow> 'a option list" where
  "js_store xs i v =
     (if i < length xs then xs[i := Some v]
      else xs @ replicate (i - length xs) None @ [Some v])"

definition js_get :: "'a option list \<Rightarrow> nat \<Rightarrow> 'a option" where
  "js_get xs i = (if i < length xs then xs ! i else None)"

text \<open>
  A worker is an \<open>async\<close> function: it runs until its \<open>await\<close> and is resumed later. It is
  at the test of its \<open>while\<close> loop (\<open>Ready\<close>), suspended in
  \<open>await scrapeDetailsViaApi(page, base)\<close> with its locals \<open>i\<close> and \<open>base\<close>, or returned.
\<close>

datatype worker = Ready | Awaiting nat listing | Finished

text \<open>
  The variables the workers share, \<open>idx\<close> and \<open>out\<close>, and the workers. \<open>calls\<close> is a
  history variable: the indices \<open>scrapeDetailsViaApi\<close> has been called for, in call order.
\<close>

record pool =
  idx :: nat
  out :: "listing option list"
  workers :: "worker list"
  calls :: "nat list"

definition pool_init :: "nat \<Rightarrow> pool" where
  "pool_init c = \<lparr> idx = 0, out = [], workers = replicate c Ready, calls = [] \<rparr>"

text \<open>
  One turn of worker \<open>w\<close>. At the loop test it either claims \<open>i = idx++\<close>, reads
  \<open>base = all[i]\<close> and suspends in the call, or leaves the loop. Resumed from the call it
  writes \<open>out[i] = detailed\<close> and is back at the loop test. \<open>evaluated i\<close> is the outcome of
  \<open>page.evaluate\<close> in the call for index \<open>i\<close>.
\<close>

definition worker_step :: "listing list \<Rightarrow> (nat \<Rightarrow> js_error + detail) \<Rightarrow> nat \<Rightarrow> pool \<Rightarrow> pool" where
  "worker_step all evaluated w s =
     (if w < length (workers s) then
        (case workers s ! w of
           Ready \<Rightarrow>
             if idx s < length all
             then s\<lparr> idx := idx s + 1,
                     workers := (workers s)[w := Awaiting (idx s) (all ! idx s)],
                     calls := calls s @ [idx s] \<rparr>
             else s\<lparr> workers := (workers s)[w := Finished] \<rparr>
         | Awaiting i base \<Rightarrow>
             s\<lparr> out := js_store (out s) i (scrapeDetailsViaApi (evaluated i) base),
                workers := (workers s)[w := Ready] \<rparr>
         | Finished \<Rightarrow> s)
      else s)"

text \<open>
  The event loop resumes the workers in some order: a schedule is the list of the workers
  that take a turn, and every order of completion of the calls is a schedule. The four
  workers started by \<open>Array.from\<close> are the schedule \<open>[0, 1, 2, 3]\<close>; a worker that is
  resumed, writes its result and claims the next index before it is suspended again takes
  two turns in a row. Schedules that interleave more finely than the event loop does are
  covered as well.
\<close>

fun run_schedule :: "listing list \<Rightarrow> (nat \<Rightarrow> js_error + detail) \<Rightarrow> nat list \<Rightarrow> pool \<Rightarrow> pool" where
  "run_schedule all evaluated [] s = s"
| "run_schedule all evaluated (w # ws) s = run_schedule all evaluated ws (worker_step all evaluated w s)"

text \<open>\<open>Promise.all(workers)\<close> resolves when every worker has returned.\<close>

definition pool_done :: "pool \<Rightarrow> bool" where
  "pool_done s = list_all (\<lambda>w. w = Finished) (workers s)"

text \<open>The pool of \<open>run\<close>: \<open>DETAILS_CONCURRENCY\<close> workers on the fresh state.\<close>

definition enrich :: "listing list \<Rightarrow> (nat \<Rightarrow> js_error + detail) \<Rightarrow> nat list \<Rightarrow> pool" where
  "enrich all evaluated schedule = run_schedule all evaluated schedule (pool_init DETAILS_CONCURRENCY)"

section \<open>Notions used to state the properties\<close>

text \<open>The normalised rows read from a page, as the page loop computes them.\<close>

definition page_rows :: "page_view \<Rightarrow> listing list" where
  "page_rows pg = map normalize_row (scrapePageRows (header_cells pg) (grid_rows pg))"

text \<open>The state \<open>(all, seenLinks)\<close> after the rows of pages \<open>1..k\<close> have been added.\<close>

fun state_after :: "(nat \<Rightarrow> page_view) \<Rightarrow> (string \<rightharpoonup> string) \<Rightarrow> nat \<Rightarrow> listing list \<times> jsval set" where
  "state_after site agencyMap 0 = ([], {})"
| "state_after site agencyMap (Suc k) =
     add_rows agencyMap (page_rows (site (Suc k))) (state_after site agencyMap k)"

text \<open>
  Pass \<open>q\<close> of the page loop goes on to the next page: the rows are rendered, fewer than
  \<open>maxItems\<close> records are held after the page, and the click on the next-page control succeeds.
\<close>

definition page_passed :: "(nat \<Rightarrow> page_view) \<Rightarrow> (string \<rightharpoonup> string) \<Rightarrow> nat \<Rightarrow> nat \<Rightarrow> bool" where
  "page_passed site agencyMap maxItems q =
     (rendered (site q) \<and> length (fst (state_after site agencyMap q)) < maxItems \<and>
      findAndClickNext (site q) = Inr True)"

subsection \<open>Example pages\<close>

text \<open>
  A page whose next-page control is enabled but does nothing: the view after the click
  and every view polled afterwards are the view shown before the click.
\<close>

definition unchanged_view :: snapshot where
  "unchanged_view = \<lparr>first_row = Some (Some ''r1'', ''B-1 Road works''), pg_input = Some ''1''\<rparr>"

definition unchanged_page :: page_view where
  "unchanged_page =
     \<lparr>rendered = True, header_cells = [''Bid #'', ''Title''],
      grid_rows = [\<lparr>id_attr = Some ''r1'', cells = [''B-1'', ''Road works'']\<rparr>],
      next_ctl = Present False, shown = unchanged_view, at_click = unchanged_view,
      polls = [unchanged_view, unchanged_view, unchanged_view]\<rparr>"

text \<open>
  A page whose grid is emptied after its rows have been read, as by a reload that never
  completes: there is no first row and no page-number input when the control is clicked,
  right after the click, and on every view polled before the time-out.
\<close>

definition blank_view :: snapshot where
  "blank_view = \<lparr>first_row = None, pg_input = None\<rparr>"

definition stalled_page :: page_view where
  "stalled_page =
     \<lparr>rendered = True, header_cells = [''Bid #'', ''Title''],
      grid_rows = [\<lparr>id_attr = Some ''r2'', cells = [''B-2'', ''Bridge repair'']\<rparr>],
      next_ctl = Present False, shown = blank_view, at_click = blank_view,
      polls = [blank_view, blank_view, blank_view]\<rparr>"

text \<open>A site whose first page advances and whose later pages stall.\<close>

definition stalling_site :: "nat \<Rightarrow> page_view" where
  "stalling_site p = (if p = 1 then unchanged_page else stalled_page)"

text \<open>
  A page with one row that has a title but neither an \<open>id\<close> attribute nor a number
  column, and the record the page loop makes of it.
\<close>

definition keyless_row :: listing where
  "keyless_row =
     \<lparr>listing_id = [], contract_number = [], contract_title = ''Road works'', open_date = [],
      deadline_date = [], agency_code = [], unspc = [], contact_email = [], files = [],
      bookmarkable_link_url = JStr [], agency_full = [], detail_error = None\<rparr>"

definition keyless_page :: page_view where
  "keyless_page =
     \<lparr>rendered = True, header_cells = [''Title''],
      grid_rows = [\<lparr>id_attr = None, cells = [''Road works'']\<rparr>],
      next_ctl = Absent, shown = blank_view, at_click = blank_view, polls = []\<rparr>"

text \<open>
  A page of \<open>n\<close> rows with pairwise different \<open>id\<close> attributes under the one header
  \<open>number\<close>, without a next-page control, and the record the page loop makes of row \<open>i\<close>.
\<close>

definition numbered_row :: "nat \<Rightarrow> grid_row" where
  "numbered_row i = \<lparr>id_attr = Some (replicate (Suc i) CHR ''x''), cells = [''c'']\<rparr>"

definition long_page :: "nat \<Rightarrow> page_view" where
  "long_page n =
     \<lparr>rendered = True, header_cells = [''number''], grid_rows = map numbered_row [0..<n],
      next_ctl = Absent, shown = blank_view, at_click = blank_view, polls = []\<rparr>"

definition numbered_link :: "nat \<Rightarrow> string" where
  "numbered_link i = ''/Bids/GetBidDetail?id='' @ replicate (Suc i) CHR ''x''"

definition numbered_listing :: "nat \<Rightarrow> listing" where
  "numbered_listing i =
     \<lparr>listing_id = replicate (Suc i) CHR ''x'', contract_number = ''c'', contract_title = [],
      open_date = [], deadline_date = [], agency_code = [], unspc = [], contact_email = [],
      files = [],
      bookmarkable_link_url = JStr (numbered_link i),
      agency_full = [], detail_error = None\<rparr>"

text \<open>
  Three records and the outcomes of their calls: the call for the second record raises an
  exception, the other two return an email and a file.
\<close>

definition sample_records :: "listing list" where
  "sample_records = [numbered_listing 0, numbered_listing 1, numbered_listing 2]"

definition sample_outcomes :: "nat \<Rightarrow> js_error + detail" where
  "sample_outcomes i =
     (if i = 1 then Inl (JsError ''Error'' ''Fetch failed 500 for /Bids/GetBidDetail?id=xx'')
      else Inr \<lparr>detail_contact_email = ''buyer@example.org'',
                detail_files = [\<lparr>title = ''Bid form'', Url = ''https://example.org/form.pdf''\<rparr>]\<rparr>)"

subsection \<open>The join and the worker pool\<close>

text \<open>The record the inner loop pushes: \<open>{ ...r, agency_full }\<close>.\<close>

definition joined :: "(string \<rightharpoonup> string) \<Rightarrow> listing \<Rightarrow> listing" where
  "joined agencyMap r =
     r\<lparr> agency_full := (case agencyMap (agency_code r) of None \<Rightarrow> [] | Some v \<Rightarrow> v) \<rparr>"

text \<open>Some worker is suspended in the call for index \<open>i\<close>.\<close>

definition awaiting :: "pool \<Rightarrow> nat \<Rightarrow> bool" where
  "awaiting s i = (\<exists>w<length (workers s). \<exists>b. workers s ! w = Awaiting i b)"

text \<open>The record \<open>scrapeDetailsViaApi\<close> returns for the input record at index \<open>i\<close>.\<close>

definition enriched :: "listing list \<Rightarrow> (nat \<Rightarrow> js_error + detail) \<Rightarrow> nat \<Rightarrow> listing" where
  "enriched all evaluated i = scrapeDetailsViaApi (evaluated i) (all ! i)"

text \<open>
  The invariant of the pool: the cursor is within the list and every index below it has
  been claimed once, in order; a suspended worker holds an index below the cursor, the input
  record at that index, and its slot of \<open>out\<close> is still empty; no two workers hold the same
  index; every claimed index that no worker holds has its result in its own slot; and a
  worker has returned only when the cursor is at the end.
\<close>

definition pool_inv :: "listing list \<Rightarrow> (nat \<Rightarrow> js_error + detail) \<Rightarrow> pool \<Rightarrow> bool" where
  "pool_inv all evaluated s =
     (idx s \<le> length all \<and>
      calls s = [0..<idx s] \<and>
      length (out s) \<le> idx s \<and>
      (\<forall>w<length (workers s). \<forall>i b. workers s ! w = Awaiting i b \<longrightarrow>
          i < idx s \<and> b = all ! i \<and> js_get (out s) i = None) \<and>
      (\<forall>w<length (workers s). \<forall>v<length (workers s). \<forall>i b c.
          workers s ! w = Awaiting i b \<and> workers s ! v = Awaiting i c \<longrightarrow> w = v) \<and>
      (\<forall>i<idx s. \<not> awaiting s i \<longrightarrow> js_get (out s) i = Some (enriched all evaluated i)) \<and>
      (Finished \<in> set (workers s) \<longrightarrow> idx s = length all))"

text \<open>A measure that every turn of a worker that has not returned decreases.\<close>

fun worker_weight :: "worker \<Rightarrow> nat" where
  "worker_weight Ready = 1"
| "worker_weight (Awaiting i b) = 2"
| "worker_weight Finished = 0"

definition pool_measure :: "listing list \<Rightarrow> pool \<Rightarrow> nat" where
  "pool_measure all s = 2 * (length all - idx s) + sum_list (map worker_weight (workers s))"

text \<open>The field of a record that a logical field name stands for.\<close>

fun field_of :: "field \<Rightarrow> listing \<Rightarrow> string" where
  "field_of Contract_number r = contract_number r"
| "field_of Contract_title r = contract_title r"
| "field_of Open_date r = open_date r"
| "field_of Deadline_date r = deadline_date r"
| "field_of Agency_code r = agency_code r"
| "field_of Unspc r = unspc r"

section \<open>Properties of deduplication\<close>

lemma uniqBy_loop_out: "uniqBy_loop keyFn xs seen acc = acc @ uniqBy_loop keyFn xs seen []"
proof (induction xs arbitrary: seen acc)
  case Nil
  show ?case by simp
next
  case (Cons x xs)
  have a: "uniqBy_loop keyFn xs (insert (keyFn x) seen) (acc @ [x]) =
             acc @ x # uniqBy_loop keyFn xs (insert (keyFn x) seen) []"
    using Cons.IH [of "insert (keyFn x) seen" "acc @ [x]"] by simp
  have b: "uniqBy_loop keyFn xs (insert (keyFn x) seen) [x] =
             x # uniqBy_loop keyFn xs (insert (keyFn x) seen) []"
    using Cons.IH [of "insert (keyFn x) seen" "[x]"] by simp
  show ?case
    using a b Cons.IH [of seen acc] by (simp add: Let_def)
qed

lemma uniqBy_loop_keys:
  "y \<in> set (uniqBy_loop keyFn xs seen []) \<Longrightarrow> truthy (keyFn y) \<and> keyFn y \<notin> seen \<and> y \<in> set xs"
proof (induction xs arbitrary: seen)
  case Nil
  then show ?case by simp
next
  case (Cons x xs)
  show ?case
  proof (cases "\<not> truthy (keyFn x) \<or> keyFn x \<in> seen")
    case True
    with Cons.prems have "y \<in> set (uniqBy_loop keyFn xs seen [])" by (simp add: Let_def)
    from Cons.IH [OF this] show ?thesis by simp
  next
    case False
    with Cons.prems have "y \<in> set (x # uniqBy_loop keyFn xs (insert (keyFn x) seen) [])"
      using uniqBy_loop_out [of keyFn xs "insert (keyFn x) seen" "[x]"] by (simp add: Let_def)
    then consider "y = x" | "y \<in> set (uniqBy_loop keyFn xs (insert (keyFn x) seen) [])" by auto
    then show ?thesis
    proof cases
      case 1
      with False show ?thesis by simp
    next
      case 2
      from Cons.IH [OF 2] show ?thesis by simp
    qed
  qed
qed

lemma uniqBy_loop_distinct: "distinct (map keyFn (uniqBy_loop keyFn xs seen []))"
proof (induction xs arbitrary: seen)
  case Nil
  show ?case by simp
next
  case (Cons x xs)
  show ?case
  proof (cases "\<not> truthy (keyFn x) \<or> keyFn x \<in> seen")
    case True
    then show ?thesis using Cons.IH [of seen] by (simp add: Let_def)
  next
    case False
    have eq: "uniqBy_loop keyFn (x # xs) seen [] =
                x # uniqBy_loop keyFn xs (insert (keyFn x) seen) []"
      using False uniqBy_loop_out [of keyFn xs "insert (keyFn x) seen" "[x]"]
      by (simp add: Let_def)
    have "keyFn x \<notin> keyFn ` set (uniqBy_loop keyFn xs (insert (keyFn x) seen) [])"
    proof
      assume "keyFn x \<in> keyFn ` set (uniqBy_loop keyFn xs (insert (keyFn x) seen) [])"
      then obtain y where y: "y \<in> set (uniqBy_loop keyFn xs (insert (keyFn x) seen) [])"
        and ky: "keyFn y = keyFn x" by auto
      from uniqBy_loop_keys [OF y] ky show False by simp
    qed
    then show ?thesis using eq Cons.IH [of "insert (keyFn x) seen"] by simp
  qed
qed

lemma uniqBy_loop_fixed:
  "distinct (map keyFn ys) \<Longrightarrow> (\<And>y. y \<in> set ys \<Longrightarrow> truthy (keyFn y) \<and> keyFn y \<notin> seen)
     \<Longrightarrow> uniqBy_loop keyFn ys seen [] = ys"
proof (induction ys arbitrary: seen)
  case Nil
  show ?case by simp
next
  case (Cons y ys)
  have keep: "truthy (keyFn y) \<and> keyFn y \<notin> seen" using Cons.prems(2) by simp
  have rest: "uniqBy_loop keyFn ys (insert (keyFn y) seen) [] = ys"
  proof (rule Cons.IH)
    show "distinct (map keyFn ys)" using Cons.prems(1) by simp
  next
    fix z assume z: "z \<in> set ys"
    have "keyFn y \<notin> keyFn ` set ys" using Cons.prems(1) by simp
    then have "keyFn z \<noteq> keyFn y" using z by (metis imageI)
    then show "truthy (keyFn z) \<and> keyFn z \<notin> insert (keyFn y) seen"
      using Cons.prems(2) [of z] z by simp
  qed
  show ?case
    using keep rest uniqBy_loop_out [of keyFn ys "insert (keyFn y) seen" "[y]"]
    by (simp add: Let_def)
qed

lemma uniqBy_twice: "uniqBy (uniqBy arr keyFn) keyFn = uniqBy arr keyFn"
  unfolding uniqBy_def
  by (rule uniqBy_loop_fixed) (auto simp: uniqBy_loop_distinct dest: uniqBy_loop_keys)

text \<open>
  \<^bold>\<open>C9.\<close> Global deduplication is idempotent: applying the final pass to a list it
  has produced gives that list again, order and content unchanged. It holds for
  \<open>uniqBy\<close> with any key function.
\<close>

theorem final_dedupe_idempotent:
  "final_dedupe (final_dedupe all) = final_dedupe all \<and>
   uniqBy (uniqBy arr keyFn) keyFn = uniqBy arr keyFn"
  by (simp add: final_dedupe_def uniqBy_twice)


section \<open>Properties of the Field Resolver\<close>

lemma startsWith_iff: "startsWith h a \<longleftrightarrow> (\<exists>post. h = a @ post)"
  by (induction h a rule: startsWith.induct) auto

lemma includes_str_iff: "includes_str h a \<longleftrightarrow> (\<exists>pre post. h = pre @ a @ post)"
proof (induction h)
  case Nil
  show ?case by (cases a) auto
next
  case (Cons c cs)
  have "(\<exists>pre post. c # cs = pre @ a @ post) \<longleftrightarrow>
        (\<exists>post. c # cs = a @ post) \<or> (\<exists>pre post. cs = pre @ a @ post)"
  proof
    assume "\<exists>pre post. c # cs = pre @ a @ post"
    then obtain pre post where e: "c # cs = pre @ a @ post" by blast
    show "(\<exists>post. c # cs = a @ post) \<or> (\<exists>pre post. cs = pre @ a @ post)"
    proof (cases pre)
      case Nil
      with e show ?thesis by auto
    next
      case (Cons p ps)
      with e have "cs = ps @ a @ post" by simp
      then show ?thesis by blast
    qed
  next
    assume "(\<exists>post. c # cs = a @ post) \<or> (\<exists>pre post. cs = pre @ a @ post)"
    then show "\<exists>pre post. c # cs = pre @ a @ post"
    proof
      assume "\<exists>post. c # cs = a @ post"
      then obtain post where "c # cs = [] @ a @ post" by auto
      then show ?thesis by blast
    next
      assume "\<exists>pre post. cs = pre @ a @ post"
      then obtain pre post where "c # cs = (c # pre) @ a @ post" by auto
      then show ?thesis by blast
    qed
  qed
  then show ?case using Cons.IH by (simp add: startsWith_iff)
qed

lemma findIndex_none: "(\<forall>x\<in>set xs. \<not> P x) \<Longrightarrow> findIndex P xs = - 1"
  by (induction xs) auto

lemma findIndex_range: "findIndex P xs = - 1 \<or> (0 \<le> findIndex P xs \<and> findIndex P xs < int (length xs))"
  by (induction xs) (auto simp: Let_def)

lemma findIndex_first:
  "\<exists>x\<in>set xs. P x \<Longrightarrow>
     \<exists>i<length xs. findIndex P xs = int i \<and> P (xs ! i) \<and> (\<forall>j<i. \<not> P (xs ! j))"
proof (induction xs)
  case Nil
  then show ?case by simp
next
  case (Cons x xs)
  show ?case
  proof (cases "P x")
    case True
    then show ?thesis by (intro exI [of _ 0]) simp
  next
    case False
    with Cons.prems have "\<exists>x\<in>set xs. P x" by simp
    from Cons.IH [OF this] obtain i where i: "i < length xs" "findIndex P xs = int i"
      "P (xs ! i)" "\<forall>j<i. \<not> P (xs ! j)" by blast
    have "\<forall>j<Suc i. \<not> P ((x # xs) ! j)"
    proof (intro allI impI)
      fix j assume "j < Suc i"
      then show "\<not> P ((x # xs) ! j)" using False i(4) by (cases j) auto
    qed
    with i False show ?thesis by (intro exI [of _ "Suc i"]) (simp add: Let_def)
  qed
qed


text \<open>
  \<^bold>\<open>C6.\<close> For every list of header labels and every alias list, \<open>findCol\<close> on the
  normalised lower-case header texts is \<open>-1\<close> when no header text contains an alias, and
  otherwise the index of the earliest header whose text contains one of the aliases.
\<close>

theorem findCol_earliest_match:
  fixes headers aliases :: "string list"
  defines "ths \<equiv> map lower headers"
  shows "((\<forall>h\<in>set ths. \<forall>a\<in>set aliases. \<not> (\<exists>pre post. h = pre @ a @ post))
            \<longrightarrow> findCol ths aliases = - 1) \<and>
         ((\<exists>h\<in>set ths. \<exists>a\<in>set aliases. \<exists>pre post. h = pre @ a @ post)
            \<longrightarrow> (\<exists>i<length headers. findCol ths aliases = int i \<and>
                  (\<exists>a\<in>set aliases. \<exists>pre post. lower (headers ! i) = pre @ a @ post) \<and>
                  (\<forall>j<i. \<forall>a\<in>set aliases. \<not> (\<exists>pre post. lower (headers ! j) = pre @ a @ post))))"
proof (intro conjI impI)
  assume "\<forall>h\<in>set ths. \<forall>a\<in>set aliases. \<not> (\<exists>pre post. h = pre @ a @ post)"
  then have "\<forall>h\<in>set ths. \<not> list_ex (\<lambda>a. includes_str h a) aliases"
    by (simp add: list_ex_iff includes_str_iff)
  then show "findCol ths aliases = - 1"
    unfolding findCol_def by (rule findIndex_none)
next
  assume "\<exists>h\<in>set ths. \<exists>a\<in>set aliases. \<exists>pre post. h = pre @ a @ post"
  then have "\<exists>h\<in>set ths. list_ex (\<lambda>a. includes_str h a) aliases"
    by (simp add: list_ex_iff includes_str_iff)
  from findIndex_first [where P = "\<lambda>h. list_ex (\<lambda>a. includes_str h a) aliases", OF this]
  obtain i where i: "i < length ths" "findCol ths aliases = int i"
    "list_ex (\<lambda>a. includes_str (ths ! i) a) aliases"
    "\<forall>j<i. \<not> list_ex (\<lambda>a. includes_str (ths ! j) a) aliases"
    unfolding findCol_def by blast
  have len: "i < length headers" using i(1) by (simp add: ths_def)
  have a: "\<exists>a\<in>set aliases. \<exists>pre post. lower (headers ! i) = pre @ a @ post"
    using i(3) len by (simp add: ths_def list_ex_iff includes_str_iff)
  have b: "\<forall>j<i. \<forall>a\<in>set aliases. \<not> (\<exists>pre post. lower (headers ! j) = pre @ a @ post)"
  proof (intro allI impI)
    fix j assume j: "j < i"
    with i(4) have "\<not> list_ex (\<lambda>a. includes_str (ths ! j) a) aliases" by simp
    then show "\<forall>a\<in>set aliases. \<not> (\<exists>pre post. lower (headers ! j) = pre @ a @ post)"
      using j len by (simp add: ths_def list_ex_iff includes_str_iff)
  qed
  show "\<exists>i<length headers. findCol ths aliases = int i \<and>
          (\<exists>a\<in>set aliases. \<exists>pre post. lower (headers ! i) = pre @ a @ post) \<and>
          (\<forall>j<i. \<forall>a\<in>set aliases. \<not> (\<exists>pre post. lower (headers ! j) = pre @ a @ post))"
    using len i(2) a b by blast
qed


theorem findCol_earliest_match_witness:
  "(\<exists>h\<in>set (map lower [''Bid #'', ''Title'', ''Open Date'']).
      \<exists>a\<in>set [''bid'', ''#'']. \<exists>pre post. h = pre @ a @ post) \<and>
   findCol (map lower [''Bid #'', ''Title'', ''Open Date'']) [''bid'', ''#''] = 0 \<and>
   \<not> (\<exists>h\<in>set (map lower [''Bid #'', ''Title'', ''Open Date'']).
      \<exists>a\<in>set [''due'']. \<exists>pre post. h = pre @ a @ post) \<and>
   findCol (map lower [''Bid #'', ''Title'', ''Open Date'']) [''due''] = - 1"
proof -
  let ?hs = "[''Bid #'', ''Title'', ''Open Date'']"
  have l0: "lower (?hs ! 0) = ''bid #''" by code_simp
  have m0: "\<exists>a\<in>set [''bid'', ''#'']. \<exists>pre post. lower (?hs ! 0) = pre @ a @ post"
    unfolding l0 includes_str_iff [symmetric] by simp
  then have hyp: "\<exists>h\<in>set (map lower ?hs). \<exists>a\<in>set [''bid'', ''#'']. \<exists>pre post. h = pre @ a @ post"
    by simp
  from findCol_earliest_match [of ?hs "[''bid'', ''#'']"] hyp
  obtain i where i: "findCol (map lower ?hs) [''bid'', ''#''] = int i"
    and first: "\<forall>j<i. \<forall>a\<in>set [''bid'', ''#'']. \<not> (\<exists>pre post. lower (?hs ! j) = pre @ a @ post)"
    by blast
  have "i = 0"
  proof (rule ccontr)
    assume "i \<noteq> 0"
    then have "0 < i" by simp
    with first m0 show False by blast
  qed
  with i have r0: "findCol (map lower ?hs) [''bid'', ''#''] = 0" by simp
  have none: "\<not> (\<exists>h\<in>set (map lower ?hs). \<exists>a\<in>set [''due'']. \<exists>pre post. h = pre @ a @ post)"
    unfolding includes_str_iff [symmetric] by code_simp
  with findCol_earliest_match [of ?hs "[''due'']"]
  have r1: "findCol (map lower ?hs) [''due''] = - 1" by blast
  show ?thesis using hyp r0 none r1 by blast
qed


section \<open>Properties of the Row Extractor\<close>

lemma js_nth_outside: "j < 0 \<or> int (length xs) \<le> j \<Longrightarrow> js_nth xs j = JUndefined"
  by (auto simp: js_nth_def)

lemma get_cell_outside: "cols k < 0 \<or> int (length tds) \<le> cols k \<Longrightarrow> get_cell cols tds k = []"
  by (auto simp: get_cell_def js_nth_def js_or_def)

lemma field_of_extract_row:
  "field_of k (extract_row cols tr) = get_cell cols (map (\<lambda>td. normalize (JStr td)) (cells tr)) k"
  by (cases k) (simp_all add: extract_row_def Let_def)


text \<open>
  \<^bold>\<open>C7.\<close> For every row and every column mapping, a field whose column index is
  negative (as the not-found value \<open>-1\<close> is) or not below the number of cells of the row
  is the empty string in the extracted record. The extractor is a total function with no
  exception branch: an array read outside the range gives \<open>undefined\<close>, which \<open>|| ""\<close>
  replaces.
\<close>

theorem extract_row_missing_cell:
  "cols k < 0 \<or> int (length (cells tr)) \<le> cols k \<Longrightarrow> field_of k (extract_row cols tr) = []"
  by (simp add: field_of_extract_row get_cell_outside)

theorem extract_row_missing_cell_witness:
  "field_of Open_date (extract_row (\<lambda>k. case k of Contract_number \<Rightarrow> 0 | Contract_title \<Rightarrow> 1
       | Open_date \<Rightarrow> 2 | Deadline_date \<Rightarrow> 3 | Agency_code \<Rightarrow> - 1 | Unspc \<Rightarrow> - 1)
     \<lparr>id_attr = Some ''7'', cells = [''B-1'', ''Road works'']\<rparr>) = [] \<and>
   field_of Agency_code (extract_row (\<lambda>k. case k of Contract_number \<Rightarrow> 0 | Contract_title \<Rightarrow> 1
       | Open_date \<Rightarrow> 2 | Deadline_date \<Rightarrow> 3 | Agency_code \<Rightarrow> - 1 | Unspc \<Rightarrow> - 1)
     \<lparr>id_attr = Some ''7'', cells = [''B-1'', ''Road works'']\<rparr>) = []"
  using extract_row_missing_cell [of "\<lambda>k. case k of Contract_number \<Rightarrow> 0 | Contract_title \<Rightarrow> 1
       | Open_date \<Rightarrow> 2 | Deadline_date \<Rightarrow> 3 | Agency_code \<Rightarrow> - 1 | Unspc \<Rightarrow> - 1" Open_date
       "\<lparr>id_attr = Some ''7'', cells = [''B-1'', ''Road works'']\<rparr>"]
    extract_row_missing_cell [of "\<lambda>k. case k of Contract_number \<Rightarrow> 0 | Contract_title \<Rightarrow> 1
       | Open_date \<Rightarrow> 2 | Deadline_date \<Rightarrow> 3 | Agency_code \<Rightarrow> - 1 | Unspc \<Rightarrow> - 1" Agency_code
       "\<lparr>id_attr = Some ''7'', cells = [''B-1'', ''Road works'']\<rparr>"]
  by simp


text \<open>
  \<^bold>\<open>C8.\<close> As stated (the link is null when the identifier is empty) the claim fails:
  the extractor writes the empty string there.
\<close>

theorem detail_link_empty_id_counterexample:
  "\<not> (bookmarkable_link_url (extract_row (colIdx [''Bid #'', ''Title''])
        \<lparr>id_attr = None, cells = [''B-1'', ''Road works'']\<rparr>) = JNull)"
  by (simp add: extract_row_def Let_def)

text \<open>
  \<^bold>\<open>C8, amended.\<close> The link of an extracted row is the fixed template
  \<open>/Bids/GetBidDetail?id=\<close> followed by the row's identifier, and the empty string when the
  identifier is empty or the row has no \<open>id\<close> attribute.
\<close>

theorem detail_link_template:
  "bookmarkable_link_url (extract_row cols tr) =
     (case id_attr tr of
        None \<Rightarrow> JStr []
      | Some a \<Rightarrow> if a = [] then JStr [] else JStr (''/Bids/GetBidDetail?id='' @ a))"
  by (simp add: extract_row_def Let_def split: option.split)

theorem detail_link_template_witness:
  "bookmarkable_link_url (extract_row (colIdx [''Bid #'', ''Title''])
       \<lparr>id_attr = Some ''17'', cells = [''B-1'', ''Road works'']\<rparr>) = JStr ''/Bids/GetBidDetail?id=17'' \<and>
   bookmarkable_link_url (extract_row (colIdx [''Bid #'', ''Title''])
       \<lparr>id_attr = Some [], cells = [''B-1'', ''Road works'']\<rparr>) = JStr []"
  using detail_link_template [of "colIdx [''Bid #'', ''Title'']"
          "\<lparr>id_attr = Some ''17'', cells = [''B-1'', ''Road works'']\<rparr>"]
        detail_link_template [of "colIdx [''Bid #'', ''Title'']"
          "\<lparr>id_attr = Some [], cells = [''B-1'', ''Road works'']\<rparr>"]
  by simp

section \<open>Properties of the Pagination Driver\<close>

lemma page_changed_any_prev:
  "page_changed prev v \<longleftrightarrow>
     (case first_row v of None \<Rightarrow> False
      | Some (a, txt) \<Rightarrow> (a \<noteq> None \<and> a \<noteq> Some []) \<or> trim txt \<noteq> []) \<or>
     (case pg_input v of None \<Rightarrow> False | Some x \<Rightarrow> trim x \<noteq> [])"
  by (auto simp: page_changed_def string_prop_def Let_def split: option.splits prod.splits)

lemma findAndClickNext_cases:
  "findAndClickNext pg =
     (if next_ctl pg = Absent \<or> next_ctl pg = Present True then Inr False
      else if list_ex (page_changed (first_row_text (at_click pg))) (polls pg) then Inr True
      else Inl TimeoutError)"
  by (cases "next_ctl pg") (auto simp: findAndClickNext_def waitForFunction_def Let_def)

text \<open>
  \<^bold>\<open>C5.\<close> The code does not do what the claim says. The control is enabled, and
  neither the view read after the click nor any polled view differs from the view shown
  before the click in any component, yet \<open>findAndClickNext\<close> reports success: its predicate
  compares with properties of the string \<open>before\<close>, which are \<open>undefined\<close>.
\<close>

theorem findAndClickNext_unchanged_page:
  "at_click unchanged_page = shown unchanged_page \<and>
   polls unchanged_page = [shown unchanged_page, shown unchanged_page, shown unchanged_page] \<and>
   findAndClickNext unchanged_page = Inr True"
  by (simp add: unchanged_page_def unchanged_view_def findAndClickNext_def waitForFunction_def
      page_changed_def string_prop_def)

section \<open>Properties of the Directory Walker\<close>

lemma walk_page_stalled:
  assumes "rendered pg"
    and "length (fst (add_rows agencyMap (page_rows pg) st)) < maxItems"
    and "findAndClickNext pg = Inl e"
  shows "walk_page agencyMap maxItems pg st = Inl e"
  using assms by (simp add: walk_page_def waitForRenderedRows_def page_rows_def Let_def)

lemma walk_page_passed:
  assumes "rendered pg"
    and "length (fst (add_rows agencyMap (page_rows pg) st)) < maxItems"
    and "findAndClickNext pg = Inr True"
  shows "walk_page agencyMap maxItems pg st = Inr (True, add_rows agencyMap (page_rows pg) st)"
  using assms by (simp add: walk_page_def waitForRenderedRows_def page_rows_def Let_def)

lemma walk_loop_stalled_from:
  assumes k: "k < maxPages"
    and passed: "\<And>q. 1 \<le> q \<Longrightarrow> q \<le> k \<Longrightarrow> page_passed site agencyMap maxItems q"
    and r: "rendered (site (Suc k))"
    and len: "length (fst (state_after site agencyMap (Suc k))) < maxItems"
    and stall: "findAndClickNext (site (Suc k)) = Inl e"
  shows "j \<le> k \<Longrightarrow>
     walk_loop site agencyMap maxPages maxItems (Suc (k - j)) (state_after site agencyMap (k - j)) = Inl e"
proof (induction j)
  case 0
  have "walk_page agencyMap maxItems (site (Suc k)) (state_after site agencyMap k) = Inl e"
    using r len stall by (intro walk_page_stalled) simp_all
  then show ?case using k by (subst walk_loop.simps) simp
next
  case (Suc j)
  let ?q = "Suc (k - Suc j)"
  have q: "1 \<le> ?q" "?q \<le> k" "?q = k - j" using Suc.prems by simp_all
  have pp: "page_passed site agencyMap maxItems ?q" using passed q(1,2) by blast
  have "walk_page agencyMap maxItems (site ?q) (state_after site agencyMap (k - Suc j)) =
          Inr (True, state_after site agencyMap ?q)"
    using pp by (simp add: page_passed_def walk_page_passed)
  moreover have "walk_loop site agencyMap maxPages maxItems (Suc ?q) (state_after site agencyMap ?q) = Inl e"
    using Suc.IH Suc.prems q(3) by simp
  moreover have "?q \<le> maxPages" using q(2) k by simp
  ultimately show ?case by (subst walk_loop.simps) simp
qed

text \<open>
  \<^bold>\<open>C1.\<close> As stated (a pagination time-out ends the walk normally with the records
  collected so far) the claim fails: on a site whose first page advances and whose second
  page stalls (no signal differs between the click and the time-out), two records are held
  when the wait times out, and the walk ends with the time-out error and returns no records.
\<close>

theorem walk_pagination_timeout_counterexample:
  "at_click (stalling_site 2) = shown (stalling_site 2) \<and>
   polls (stalling_site 2) = [shown (stalling_site 2), shown (stalling_site 2), shown (stalling_site 2)] \<and>
   length (fst (state_after stalling_site Map.empty 2)) = 2 \<and>
   findAndClickNext (stalling_site 2) = Inl TimeoutError \<and>
   walk stalling_site Map.empty MAX_PAGES MAX_ITEMS = Inl TimeoutError \<and>
   \<not> (\<exists>records. walk stalling_site Map.empty MAX_PAGES MAX_ITEMS = Inr records)"
proof -
  have "walk stalling_site Map.empty MAX_PAGES MAX_ITEMS = Inl TimeoutError" by code_simp
  moreover have "findAndClickNext (stalling_site 2) = Inl TimeoutError" by code_simp
  moreover have "length (fst (state_after stalling_site Map.empty 2)) = 2" by code_simp
  moreover have "at_click (stalling_site 2) = shown (stalling_site 2)"
    by (simp add: stalling_site_def stalled_page_def)
  moreover have "polls (stalling_site 2) =
      [shown (stalling_site 2), shown (stalling_site 2), shown (stalling_site 2)]"
    by (simp add: stalling_site_def stalled_page_def)
  ultimately show ?thesis by simp
qed

text \<open>
  \<^bold>\<open>C1, amended.\<close> When the pages \<open>1..k\<close> are passed and the click on page \<open>k + 1\<close>
  (within the page limit, with fewer than \<open>maxItems\<close> records held) ends in an exception,
  as the time-out of \<open>waitForFunction\<close> is one, the walk ends with that exception: nothing
  catches it, and no records are returned.
\<close>

theorem walk_pagination_timeout_aborts:
  assumes "k < maxPages"
    and "\<forall>q. 1 \<le> q \<and> q \<le> k \<longrightarrow> page_passed site agencyMap maxItems q"
    and "rendered (site (Suc k))"
    and "length (fst (state_after site agencyMap (Suc k))) < maxItems"
    and "findAndClickNext (site (Suc k)) = Inl e"
  shows "walk site agencyMap maxPages maxItems = Inl e"
proof -
  have "walk_loop site agencyMap maxPages maxItems (Suc (k - k)) (state_after site agencyMap (k - k)) = Inl e"
    using assms by (intro walk_loop_stalled_from) auto
  then show ?thesis by (simp add: walk_def)
qed

theorem walk_pagination_timeout_aborts_witness:
  "(1::nat) < MAX_PAGES \<and> page_passed stalling_site Map.empty MAX_ITEMS 1 \<and>
   rendered (stalling_site 2) \<and>
   length (fst (state_after stalling_site Map.empty 2)) = 2 \<and>
   findAndClickNext (stalling_site 2) = Inl TimeoutError \<and>
   walk stalling_site Map.empty MAX_PAGES MAX_ITEMS = Inl TimeoutError"
proof -
  have a: "(1::nat) < MAX_PAGES" by (simp add: MAX_PAGES_def)
  have b: "page_passed stalling_site Map.empty MAX_ITEMS 1" by code_simp
  have c: "rendered (stalling_site 2)" by code_simp
  have d: "length (fst (state_after stalling_site Map.empty 2)) = 2" by code_simp
  have d': "length (fst (state_after stalling_site Map.empty (Suc 1))) < MAX_ITEMS"
    using d by (simp add: MAX_ITEMS_def numeral_2_eq_2)
  have e: "findAndClickNext (stalling_site 2) = Inl TimeoutError" by code_simp
  have b': "\<forall>q. 1 \<le> q \<and> q \<le> 1 \<longrightarrow> page_passed stalling_site Map.empty MAX_ITEMS q"
    using b by (auto simp: le_antisym)
  have "walk stalling_site Map.empty MAX_PAGES MAX_ITEMS = Inl TimeoutError"
    using walk_pagination_timeout_aborts [of 1 MAX_PAGES stalling_site Map.empty MAX_ITEMS TimeoutError]
      a b' c d' e by (simp add: numeral_2_eq_2)
  with a b c d e show ?thesis by simp
qed

section \<open>Properties of the final pass\<close>

lemma uniqBy_loop_subseq: "subseq (uniqBy_loop keyFn xs seen []) xs"
proof (induction xs arbitrary: seen)
  case Nil
  show ?case by simp
next
  case (Cons x xs)
  show ?case
  proof (cases "\<not> truthy (keyFn x) \<or> keyFn x \<in> seen")
    case True
    then show ?thesis using Cons.IH [of seen] by (auto simp: Let_def intro: list_emb_Cons)
  next
    case False
    then show ?thesis
      using Cons.IH [of "insert (keyFn x) seen"]
        uniqBy_loop_out [of keyFn xs "insert (keyFn x) seen" "[x]"]
      by (simp add: Let_def)
  qed
qed

lemma uniqBy_loop_covers:
  "x \<in> set xs \<Longrightarrow> truthy (keyFn x) \<Longrightarrow> keyFn x \<notin> seen
     \<Longrightarrow> keyFn x \<in> keyFn ` set (uniqBy_loop keyFn xs seen [])"
proof (induction xs arbitrary: seen)
  case Nil
  then show ?case by simp
next
  case (Cons y ys)
  show ?case
  proof (cases "\<not> truthy (keyFn y) \<or> keyFn y \<in> seen")
    case True
    with Cons.prems have "x \<in> set ys" by auto
    from Cons.IH [OF this Cons.prems(2,3)] True show ?thesis by (simp add: Let_def)
  next
    case False
    have eq: "uniqBy_loop keyFn (y # ys) seen [] =
                y # uniqBy_loop keyFn ys (insert (keyFn y) seen) []"
      using False uniqBy_loop_out [of keyFn ys "insert (keyFn y) seen" "[y]"]
      by (simp add: Let_def)
    show ?thesis
    proof (cases "keyFn x = keyFn y")
      case True
      then show ?thesis using eq by simp
    next
      case ne: False
      with Cons.prems have "x \<in> set ys" "keyFn x \<notin> insert (keyFn y) seen" by auto
      from Cons.IH [OF this(1) Cons.prems(2) this(2)] show ?thesis using eq by auto
    qed
  qed
qed

lemma uniqBy_loop_first:
  "y \<in> set (uniqBy_loop keyFn xs seen []) \<Longrightarrow> find (\<lambda>x. keyFn x = keyFn y) xs = Some y"
proof (induction xs arbitrary: seen)
  case Nil
  then show ?case by simp
next
  case (Cons x xs)
  show ?case
  proof (cases "\<not> truthy (keyFn x) \<or> keyFn x \<in> seen")
    case True
    with Cons.prems have y: "y \<in> set (uniqBy_loop keyFn xs seen [])" by (simp add: Let_def)
    from uniqBy_loop_keys [OF y] True have "keyFn x \<noteq> keyFn y" by auto
    with Cons.IH [OF y] show ?thesis by simp
  next
    case False
    have eq: "uniqBy_loop keyFn (x # xs) seen [] =
                x # uniqBy_loop keyFn xs (insert (keyFn x) seen) []"
      using False uniqBy_loop_out [of keyFn xs "insert (keyFn x) seen" "[x]"]
      by (simp add: Let_def)
    show ?thesis
    proof (cases "y = x")
      case True
      then show ?thesis by simp
    next
      case ne: False
      with Cons.prems eq have y: "y \<in> set (uniqBy_loop keyFn xs (insert (keyFn x) seen) [])"
        by simp
      from uniqBy_loop_keys [OF y] have "keyFn x \<noteq> keyFn y" by auto
      with Cons.IH [OF y] show ?thesis by simp
    qed
  qed
qed

lemma page_key_truthy: "truthy (page_key r)"
  by (simp add: page_key_def js_or_def stringify_def)

lemma page_key_final_key: "truthy (final_key r) \<Longrightarrow> page_key r = final_key r"
  by (simp add: page_key_def final_key_def js_or_def)

lemma page_key_fallback: "\<not> truthy (final_key r) \<Longrightarrow> page_key r = JStr (stringify r)"
  by (simp add: page_key_def final_key_def js_or_def)

text \<open>
  \<^bold>\<open>C2.\<close> As stated (the final pass uses the key function of the per-page
  deduplication and returns the records in first-seen order) the claim fails: a row with
  a title but no id and no number is kept by the page loop under its serialised content,
  has an empty key in the final pass, and is dropped by it.
\<close>

theorem final_dedupe_key_counterexample:
  "walk_loop (\<lambda>p. keyless_page) Map.empty MAX_PAGES MAX_ITEMS 1 ([], {}) = Inr [keyless_row] \<and>
   page_key keyless_row \<noteq> final_key keyless_row \<and>
   final_dedupe [keyless_row] = []"
proof -
  have "walk_loop (\<lambda>p. keyless_page) Map.empty MAX_PAGES MAX_ITEMS 1 ([], {}) = Inr [keyless_row]"
    by code_simp
  moreover have "page_key keyless_row \<noteq> final_key keyless_row"
  proof
    assume "page_key keyless_row = final_key keyless_row"
    then have "truthy (final_key keyless_row)" using page_key_truthy [of keyless_row] by simp
    then show False by (simp add: final_key_def js_or_def keyless_row_def)
  qed
  moreover have "final_dedupe [keyless_row] = []"
    by (simp add: final_dedupe_def uniqBy_def final_key_def js_or_def keyless_row_def)
  ultimately show ?thesis by simp
qed

text \<open>
  \<^bold>\<open>C2, amended.\<close> The key of the final pass is the link if it is not empty, else the
  contract number, with no fallback. It is the per-page key of every record for which it
  is not empty; a record for which it is empty had its serialised content as per-page key
  and is dropped by the final pass. The records returned are a subsequence of the
  accumulated list (first-seen order), with pairwise different keys, one for every
  non-empty key of the list, each the first record of the list with its key.
\<close>

theorem final_dedupe_first_seen:
  "final_key r = (if truthy (bookmarkable_link_url r) then bookmarkable_link_url r
                  else JStr (contract_number r)) \<and>
   (truthy (final_key r) \<longrightarrow> page_key r = final_key r) \<and>
   (\<not> truthy (final_key r) \<longrightarrow> page_key r = JStr (stringify r) \<and> r \<notin> set (final_dedupe all)) \<and>
   subseq (final_dedupe all) all \<and>
   distinct (map final_key (final_dedupe all)) \<and>
   (\<forall>x\<in>set all. truthy (final_key x) \<longrightarrow> final_key x \<in> final_key ` set (final_dedupe all)) \<and>
   (\<forall>y\<in>set (final_dedupe all). find (\<lambda>x. final_key x = final_key y) all = Some y)"
proof (intro conjI)
  show "final_key r = (if truthy (bookmarkable_link_url r) then bookmarkable_link_url r
                  else JStr (contract_number r))"
    by (simp add: final_key_def js_or_def)
  show "truthy (final_key r) \<longrightarrow> page_key r = final_key r"
    by (simp add: page_key_final_key)
  show "\<not> truthy (final_key r) \<longrightarrow> page_key r = JStr (stringify r) \<and> r \<notin> set (final_dedupe all)"
    using uniqBy_loop_keys [of r final_key all "{}"]
    by (auto simp: page_key_fallback final_dedupe_def uniqBy_def)
  show "subseq (final_dedupe all) all"
    by (simp add: final_dedupe_def uniqBy_def uniqBy_loop_subseq)
  show "distinct (map final_key (final_dedupe all))"
    by (simp add: final_dedupe_def uniqBy_def uniqBy_loop_distinct)
  show "\<forall>x\<in>set all. truthy (final_key x) \<longrightarrow> final_key x \<in> final_key ` set (final_dedupe all)"
    using uniqBy_loop_covers [of _ all final_key "{}"]
    by (simp add: final_dedupe_def uniqBy_def)
  show "\<forall>y\<in>set (final_dedupe all). find (\<lambda>x. final_key x = final_key y) all = Some y"
    using uniqBy_loop_first [of _ final_key all "{}"]
    by (simp add: final_dedupe_def uniqBy_def)
qed

theorem final_dedupe_first_seen_witness:
  "\<not> truthy (final_key keyless_row) \<and>
   page_key keyless_row = JStr (stringify keyless_row) \<and>
   keyless_row \<notin> set (final_dedupe [numbered_listing 0, keyless_row, numbered_listing 0]) \<and>
   truthy (final_key (numbered_listing 0)) \<and>
   page_key (numbered_listing 0) = final_key (numbered_listing 0) \<and>
   numbered_listing 0 \<in> set (final_dedupe [numbered_listing 0, keyless_row, numbered_listing 0]) \<and>
   find (\<lambda>x. final_key x = final_key (numbered_listing 0))
     [numbered_listing 0, keyless_row, numbered_listing 0] = Some (numbered_listing 0)"
proof -
  let ?all = "[numbered_listing 0, keyless_row, numbered_listing 0]"
  have k: "\<not> truthy (final_key keyless_row)"
    by (simp add: final_key_def js_or_def keyless_row_def)
  have n: "truthy (final_key (numbered_listing 0))"
    by (simp add: final_key_def js_or_def numbered_listing_def numbered_link_def)
  have m: "numbered_listing 0 \<in> set (final_dedupe ?all)"
    using final_dedupe_first_seen [of "numbered_listing 0" ?all] n
      uniqBy_loop_keys [of _ final_key ?all "{}"] k
    by (auto simp: final_dedupe_def uniqBy_def)
  from final_dedupe_first_seen [of keyless_row ?all] k
  have a: "page_key keyless_row = JStr (stringify keyless_row)"
    "keyless_row \<notin> set (final_dedupe ?all)" by blast+
  from final_dedupe_first_seen [of "numbered_listing 0" ?all] n m
  have b: "page_key (numbered_listing 0) = final_key (numbered_listing 0)"
    "find (\<lambda>x. final_key x = final_key (numbered_listing 0)) ?all = Some (numbered_listing 0)"
    by blast+
  show ?thesis using k n m a b by blast
qed


section \<open>Records beyond the item limit\<close>

lemma collapse_ws_no_space: "\<forall>c\<in>set s. \<not> is_space c \<Longrightarrow> collapse_ws s = s"
  by (induction s) simp_all

lemma dropWhile_none: "\<forall>c\<in>set s. \<not> P c \<Longrightarrow> dropWhile P s = s"
  by (cases s) simp_all

lemma trim_no_space: "\<forall>c\<in>set s. \<not> is_space c \<Longrightarrow> trim s = s"
  by (simp add: trim_def dropWhile_none)

lemma normalize_no_space: "\<forall>c\<in>set s. \<not> is_space c \<Longrightarrow> normalize (JStr s) = s"
  by (simp add: normalize_def collapse_ws_no_space trim_no_space)

lemma colIdx_number:
  "colIdx [''number''] k = (if k = Contract_number then 0 else - 1)"
proof -
  have "colIdx [''number''] Contract_number = 0" by code_simp
  moreover have "colIdx [''number''] Contract_title = - 1" by code_simp
  moreover have "colIdx [''number''] Open_date = - 1" by code_simp
  moreover have "colIdx [''number''] Deadline_date = - 1" by code_simp
  moreover have "colIdx [''number''] Agency_code = - 1" by code_simp
  moreover have "colIdx [''number''] Unspc = - 1" by code_simp
  ultimately show ?thesis by (cases k) simp_all
qed

lemma extract_numbered_row:
  "extract_row (colIdx [''number'']) (numbered_row i) = numbered_listing i"
proof -
  have c: "normalize (JStr ''c'') = ''c''" by code_simp
  show ?thesis
    by (simp add: extract_row_def numbered_row_def numbered_listing_def numbered_link_def Let_def c
        get_cell_def colIdx_number js_nth_def js_or_def)
qed

lemma link_no_space: "\<forall>c\<in>set (numbered_link i). \<not> is_space c"
  by (auto simp: is_space_def numbered_link_def)

lemma normalize_numbered_listing: "normalize_row (numbered_listing i) = numbered_listing i"
proof -
  have c: "normalize (JStr ''c'') = ''c''" by code_simp
  have e: "normalize (JStr []) = []" by code_simp
  have l: "normalize (JStr (numbered_link i)) = numbered_link i"
    using link_no_space by (rule normalize_no_space)
  show ?thesis
    by (simp add: normalize_row_def numbered_listing_def c e l)
qed

lemma page_rows_long_page: "page_rows (long_page n) = map numbered_listing [0..<n]"
proof -
  have "scrapePageRows [''number''] (map numbered_row [0..<n]) = map numbered_listing [0..<n]"
    by (simp add: scrapePageRows_def extract_numbered_row filter_map o_def numbered_listing_def)
  then show ?thesis
    by (simp add: page_rows_def long_page_def normalize_numbered_listing)
qed

lemma numbered_link_nonempty: "numbered_link i \<noteq> []"
  by (simp add: numbered_link_def)

lemma page_key_numbered: "page_key (numbered_listing i) = JStr (numbered_link i)"
  by (simp add: page_key_def js_or_def numbered_listing_def numbered_link_nonempty)

lemma final_key_numbered:
  "final_key ((numbered_listing i)\<lparr>agency_full := a\<rparr>) = JStr (numbered_link i)"
  by (simp add: final_key_def js_or_def numbered_listing_def numbered_link_nonempty)

lemma numbered_link_inj: "inj_on (\<lambda>i. JStr (numbered_link i)) A"
proof (rule inj_onI)
  fix i j
  assume "JStr (numbered_link i) = JStr (numbered_link j)"
  then have "length (numbered_link i) = length (numbered_link j)" by simp
  then show "i = j" by (simp add: numbered_link_def)
qed

lemma add_rows_length:
  "length (fst (add_rows agencyMap rows st)) \<le> length (fst st) + length rows"
proof (induction rows arbitrary: st)
  case Nil
  show ?case by (cases st) simp
next
  case (Cons r rs)
  obtain all seen where st: "st = (all, seen)" by (cases st)
  show ?case
  proof (cases "page_key r \<in> seen")
    case True
    then show ?thesis using Cons.IH [of "(all, seen)"] by (simp add: st Let_def)
  next
    case False
    then show ?thesis
      using Cons.IH [of "(all @ [joined agencyMap r], insert (page_key r) seen)"]
      by (simp add: st Let_def joined_def)
  qed
qed

lemma add_rows_fresh:
  "distinct (map page_key rows) \<Longrightarrow> \<forall>r\<in>set rows. page_key r \<notin> seen
     \<Longrightarrow> fst (add_rows agencyMap rows (all, seen)) = all @ map (joined agencyMap) rows"
proof (induction rows arbitrary: all seen)
  case Nil
  show ?case by simp
next
  case (Cons r rs)
  have fresh: "page_key r \<notin> seen" using Cons.prems(2) by simp
  have "fst (add_rows agencyMap rs (all @ [joined agencyMap r], insert (page_key r) seen)) =
          (all @ [joined agencyMap r]) @ map (joined agencyMap) rs"
  proof (rule Cons.IH)
    show "distinct (map page_key rs)" using Cons.prems(1) by simp
    show "\<forall>x\<in>set rs. page_key x \<notin> insert (page_key r) seen"
    proof
      fix x assume x: "x \<in> set rs"
      have "page_key r \<notin> page_key ` set rs" using Cons.prems(1) by simp
      then have "page_key x \<noteq> page_key r" using x by (metis imageI)
      then show "page_key x \<notin> insert (page_key r) seen" using Cons.prems(2) x by simp
    qed
  qed
  then show ?case using fresh by (simp add: Let_def joined_def)
qed

lemma walk_page_result:
  "walk_page agencyMap maxItems pg st = Inr (go_on, st') \<Longrightarrow>
     st' = add_rows agencyMap (page_rows pg) st \<and> (go_on \<longrightarrow> length (fst st') < maxItems)"
  by (auto simp: walk_page_def page_rows_def Let_def split: sum.splits if_splits)

lemma walk_loop_bound:
  "\<forall>q. length (page_rows (site q)) \<le> m \<Longrightarrow> length (fst st) \<le> maxItems - 1 \<Longrightarrow>
     walk_loop site agencyMap maxPages maxItems p st = Inr res \<Longrightarrow>
     length res \<le> maxItems - 1 + m"
proof (induction site agencyMap maxPages maxItems p st rule: walk_loop.induct)
  case (1 site agencyMap maxPages maxItems p st)
  note m = "1.prems"(1) and inv = "1.prems"(2) and run = "1.prems"(3)
  show ?case
  proof (cases "p \<le> maxPages")
    case False
    with run have "res = fst st" by (subst (asm) walk_loop.simps) simp
    with inv show ?thesis by simp
  next
    case True
    from run True obtain go_on st' where
      wp: "walk_page agencyMap maxItems (site p) st = Inr (go_on, st')"
      by (subst (asm) walk_loop.simps) (auto split: sum.splits)
    from walk_page_result [OF wp] have st': "st' = add_rows agencyMap (page_rows (site p)) st"
      by blast
    from walk_page_result [OF wp] have small: "go_on \<longrightarrow> length (fst st') < maxItems"
      by blast
    have "length (page_rows (site p)) \<le> m" using m by blast
    then have len: "length (fst st') \<le> maxItems - 1 + m"
      using add_rows_length [of agencyMap "page_rows (site p)" st] inv unfolding st' by simp
    show ?thesis
    proof (cases go_on)
      case False
      with run True wp have "res = fst st'" by (subst (asm) walk_loop.simps) simp
      with len show ?thesis by simp
    next
      case go: True
      with run True wp
      have rec: "walk_loop site agencyMap maxPages maxItems (p + 1) st' = Inr res"
        by (subst (asm) walk_loop.simps) simp
      have "length (fst st') \<le> maxItems - 1" using small go by simp
      from "1.IH" [OF True wp refl go m this rec] show ?thesis .
    qed
  qed
qed

lemma page_rows_length: "length (page_rows pg) \<le> length (grid_rows pg)"
  by (simp add: page_rows_def scrapePageRows_def order_trans [OF length_filter_le])

lemma uniqBy_length: "length (uniqBy xs keyFn) \<le> length xs"
proof -
  have "length (uniqBy_loop keyFn xs seen []) \<le> length xs" for seen
  proof (induction xs arbitrary: seen)
    case Nil
    show ?case by simp
  next
    case (Cons x xs)
    show ?case
      using Cons.IH [of seen] Cons.IH [of "insert (keyFn x) seen"]
        uniqBy_loop_out [of keyFn xs "insert (keyFn x) seen" "[x]"]
      by (simp add: Let_def le_SucI)
  qed
  then show ?thesis by (simp add: uniqBy_def)
qed

lemma walk_loop_long_page:
  assumes "0 < maxPages" and "maxItems \<le> n"
  shows "walk_loop (\<lambda>p. long_page n) agencyMap maxPages maxItems 1 ([], {}) =
           Inr (map (joined agencyMap) (map numbered_listing [0..<n]))"
proof -
  let ?rows = "map numbered_listing [0..<n]"
  have keys: "map page_key ?rows = map (\<lambda>i. JStr (numbered_link i)) [0..<n]"
    by (simp add: page_key_numbered)
  have "distinct (map page_key ?rows)"
    unfolding keys by (simp add: distinct_map numbered_link_inj)
  then have st: "fst (add_rows agencyMap ?rows ([], {})) = map (joined agencyMap) ?rows"
    using add_rows_fresh [of ?rows "{}" agencyMap "[]"] by simp
  have "walk_page agencyMap maxItems (long_page n) ([], {}) =
          Inr (False, add_rows agencyMap ?rows ([], {}))"
  proof -
    have r: "rendered (long_page n)" by (simp add: long_page_def)
    have pr: "map normalize_row (scrapePageRows (header_cells (long_page n))
                (grid_rows (long_page n))) = ?rows"
      using page_rows_long_page [of n] by (simp add: page_rows_def)
    have "maxItems \<le> length (fst (add_rows agencyMap ?rows ([], {})))"
      unfolding st using assms(2) by simp
    then show ?thesis
      unfolding walk_page_def waitForRenderedRows_def pr Let_def using r by simp
  qed
  then have "walk_loop (\<lambda>p. long_page n) agencyMap maxPages maxItems 1 ([], {}) =
               Inr (fst (add_rows agencyMap ?rows ([], {})))"
    using assms(1) by (subst walk_loop.simps) simp
  then show ?thesis unfolding st .
qed

lemma walk_page_cutoff:
  assumes "rendered pg" and "maxItems \<le> length (fst (add_rows agencyMap (page_rows pg) st))"
  shows "walk_page agencyMap maxItems pg st = Inr (False, add_rows agencyMap (page_rows pg) st)"
  using assms by (simp add: walk_page_def waitForRenderedRows_def page_rows_def Let_def)

lemma final_dedupe_long_page:
  "final_dedupe (map (joined agencyMap) (map numbered_listing [0..<n])) =
     map (joined agencyMap) (map numbered_listing [0..<n])"
proof -
  let ?out = "map (joined agencyMap) (map numbered_listing [0..<n])"
  have keys: "map final_key ?out = map (\<lambda>i. JStr (numbered_link i)) [0..<n]"
    by (simp add: joined_def final_key_numbered)
  have d: "distinct (map final_key ?out)"
    unfolding keys by (simp add: distinct_map numbered_link_inj)
  have t: "\<And>y. y \<in> set ?out \<Longrightarrow> truthy (final_key y) \<and> final_key y \<notin> {}"
    by (auto simp: joined_def final_key_numbered numbered_link_nonempty)
  show ?thesis
    unfolding final_dedupe_def uniqBy_def using d t by (rule uniqBy_loop_fixed)
qed

text \<open>
  \<^bold>\<open>C10.\<close> The walk can return more than \<open>maxItems\<close> records. The cutoff is tested
  after all new rows of the page have been added, and the pass that reaches it leaves the
  loop with every one of them; a single page of \<open>n \<ge> maxItems\<close> rows with different ids
  is returned whole. Nothing truncates the list afterwards, so the only bound is: when no
  page has more than \<open>m\<close> rows, at most \<open>maxItems - 1 + m\<close> records are returned.
\<close>

theorem walk_may_exceed_maxItems:
  "(rendered pg \<and> maxItems \<le> length (fst (add_rows agencyMap (page_rows pg) st)) \<longrightarrow>
      walk_page agencyMap maxItems pg st = Inr (False, add_rows agencyMap (page_rows pg) st)) \<and>
   (0 < maxPages \<and> maxItems \<le> n \<longrightarrow>
      (\<exists>res. walk (\<lambda>p. long_page n) agencyMap maxPages maxItems = Inr res \<and> length res = n)) \<and>
   ((\<forall>p. length (grid_rows (site p)) \<le> m) \<and> walk site agencyMap maxPages maxItems = Inr res
      \<longrightarrow> length res \<le> maxItems - 1 + m)"
proof (intro conjI impI)
  assume "rendered pg \<and> maxItems \<le> length (fst (add_rows agencyMap (page_rows pg) st))"
  then show "walk_page agencyMap maxItems pg st = Inr (False, add_rows agencyMap (page_rows pg) st)"
    by (simp add: walk_page_cutoff)
next
  assume mp: "0 < maxPages \<and> maxItems \<le> n"
  then have wl: "walk_loop (\<lambda>p. long_page n) agencyMap maxPages maxItems 1 ([], {}) =
                   Inr (map (joined agencyMap) (map numbered_listing [0..<n]))"
    by (intro walk_loop_long_page) simp_all
  have "walk (\<lambda>p. long_page n) agencyMap maxPages maxItems =
          Inr (final_dedupe (map (joined agencyMap) (map numbered_listing [0..<n])))"
    unfolding walk_def wl by simp
  then have "walk (\<lambda>p. long_page n) agencyMap maxPages maxItems =
               Inr (map (joined agencyMap) (map numbered_listing [0..<n]))"
    unfolding final_dedupe_long_page .
  then show "\<exists>res. walk (\<lambda>p. long_page n) agencyMap maxPages maxItems = Inr res \<and> length res = n"
    by simp
next
  assume a: "(\<forall>p. length (grid_rows (site p)) \<le> m) \<and> walk site agencyMap maxPages maxItems = Inr res"
  then obtain all where all: "walk_loop site agencyMap maxPages maxItems 1 ([], {}) = Inr all"
    and res: "res = final_dedupe all"
    by (auto simp: walk_def split: sum.splits)
  have "\<forall>q. length (page_rows (site q)) \<le> m"
    using a page_rows_length order_trans by blast
  from walk_loop_bound [OF this _ all] have "length all \<le> maxItems - 1 + m" by simp
  then show "length res \<le> maxItems - 1 + m"
    using uniqBy_length [of all final_key] by (simp add: res final_dedupe_def)
qed

theorem walk_may_exceed_maxItems_witness:
  "(0::nat) < MAX_PAGES \<and>
   (\<exists>res. walk (\<lambda>p. long_page (MAX_ITEMS + 25)) Map.empty MAX_PAGES MAX_ITEMS = Inr res \<and>
          length res = MAX_ITEMS + 25 \<and> MAX_ITEMS < length res \<and>
          length res \<le> MAX_ITEMS - 1 + (MAX_ITEMS + 25))"
proof -
  have p: "(0::nat) < MAX_PAGES" by (simp add: MAX_PAGES_def)
  have "0 < MAX_PAGES \<and> MAX_ITEMS \<le> MAX_ITEMS + 25" using p by simp
  with walk_may_exceed_maxItems [where maxItems = MAX_ITEMS and maxPages = MAX_PAGES
      and n = "MAX_ITEMS + 25" and agencyMap = Map.empty, THEN conjunct2, THEN conjunct1]
  obtain res where res: "walk (\<lambda>p. long_page (MAX_ITEMS + 25)) Map.empty MAX_PAGES MAX_ITEMS = Inr res"
    "length res = MAX_ITEMS + 25" by blast
  have "(\<forall>p. length (grid_rows (long_page (MAX_ITEMS + 25))) \<le> MAX_ITEMS + 25) \<and>
        walk (\<lambda>p. long_page (MAX_ITEMS + 25)) Map.empty MAX_PAGES MAX_ITEMS = Inr res"
    using res(1) by (simp add: long_page_def)
  with walk_may_exceed_maxItems [where maxItems = MAX_ITEMS and maxPages = MAX_PAGES
      and agencyMap = Map.empty and site = "\<lambda>p. long_page (MAX_ITEMS + 25)"
      and m = "MAX_ITEMS + 25" and res = res, THEN conjunct2, THEN conjunct2]
  have "length res \<le> MAX_ITEMS - 1 + (MAX_ITEMS + 25)" by blast
  with p res show ?thesis by auto
qed

section \<open>Properties of the worker pool\<close>

lemma js_get_store: "js_get (js_store xs i v) j = (if j = i then Some v else js_get xs j)"
  by (auto simp: js_get_def js_store_def nth_append)

lemma length_js_store: "length (js_store xs i v) = max (length xs) (Suc i)"
  by (auto simp: js_store_def)

lemma pool_inv_init: "pool_inv all evaluated (pool_init c)"
  by (simp add: pool_inv_def pool_init_def awaiting_def)

lemma claim_step:
  assumes "w < length (workers s)" "workers s ! w = Ready" "idx s < length all"
  shows "worker_step all evaluated w s =
           s\<lparr> idx := idx s + 1, workers := (workers s)[w := Awaiting (idx s) (all ! idx s)],
              calls := calls s @ [idx s] \<rparr>"
  using assms by (simp add: worker_step_def)

lemma leave_step:
  assumes "w < length (workers s)" "workers s ! w = Ready" "\<not> idx s < length all"
  shows "worker_step all evaluated w s = s\<lparr> workers := (workers s)[w := Finished] \<rparr>"
  using assms by (simp add: worker_step_def)

lemma resume_step:
  assumes "w < length (workers s)" "workers s ! w = Awaiting i b"
  shows "worker_step all evaluated w s =
           s\<lparr> out := js_store (out s) i (scrapeDetailsViaApi (evaluated i) b),
              workers := (workers s)[w := Ready] \<rparr>"
  using assms by (simp add: worker_step_def)

lemma idle_step:
  assumes "\<not> w < length (workers s) \<or> workers s ! w = Finished"
  shows "worker_step all evaluated w s = s"
  using assms by (auto simp: worker_step_def)

lemma pool_inv_claim:
  assumes inv: "pool_inv all evaluated s"
    and w: "w < length (workers s)" "workers s ! w = Ready" "idx s < length all"
  shows "pool_inv all evaluated
           (s\<lparr> idx := idx s + 1, workers := (workers s)[w := Awaiting (idx s) (all ! idx s)],
               calls := calls s @ [idx s] \<rparr>)"
    (is "pool_inv all evaluated ?t")
proof -
  let ?ws = "(workers s)[w := Awaiting (idx s) (all ! idx s)]"
  have old: "\<And>v i b. v < length (workers s) \<Longrightarrow> workers s ! v = Awaiting i b \<Longrightarrow>
               i < idx s \<and> b = all ! i \<and> js_get (out s) i = None"
    using inv by (simp add: pool_inv_def)
  have uniq: "\<And>u v i b c. u < length (workers s) \<Longrightarrow> v < length (workers s) \<Longrightarrow>
               workers s ! u = Awaiting i b \<Longrightarrow> workers s ! v = Awaiting i c \<Longrightarrow> u = v"
    using inv unfolding pool_inv_def by blast
  have len: "length (out s) \<le> idx s" using inv by (simp add: pool_inv_def)
  have nth: "\<And>v. v < length (workers s) \<Longrightarrow>
               ?ws ! v = (if v = w then Awaiting (idx s) (all ! idx s) else workers s ! v)"
    by (simp add: nth_list_update)
  have a: "idx ?t \<le> length all" using w(3) by simp
  have b: "calls ?t = [0..<idx ?t]" using inv by (simp add: pool_inv_def)
  have c: "length (out ?t) \<le> idx ?t" using len by simp
  have d: "\<forall>v<length (workers ?t). \<forall>i b. workers ?t ! v = Awaiting i b \<longrightarrow>
             i < idx ?t \<and> b = all ! i \<and> js_get (out ?t) i = None"
  proof (intro allI impI)
    fix v i b assume v: "v < length (workers ?t)" and aw: "workers ?t ! v = Awaiting i b"
    show "i < idx ?t \<and> b = all ! i \<and> js_get (out ?t) i = None"
    proof (cases "v = w")
      case True
      with v aw have "i = idx s" "b = all ! idx s" by (auto simp: nth)
      with len show ?thesis by (simp add: js_get_def)
    next
      case False
      with v aw have "workers s ! v = Awaiting i b" "v < length (workers s)" by (simp_all add: nth)
      from old [OF this(2,1)] show ?thesis by simp
    qed
  qed
  have e: "\<forall>u<length (workers ?t). \<forall>v<length (workers ?t). \<forall>i b c.
             workers ?t ! u = Awaiting i b \<and> workers ?t ! v = Awaiting i c \<longrightarrow> u = v"
  proof (intro allI impI)
    fix u v i b c
    assume u: "u < length (workers ?t)" and v: "v < length (workers ?t)"
      and aw: "workers ?t ! u = Awaiting i b \<and> workers ?t ! v = Awaiting i c"
    have lt: "\<And>x j d. x < length (workers s) \<Longrightarrow> x \<noteq> w \<Longrightarrow> ?ws ! x = Awaiting j d \<Longrightarrow> j < idx s"
      using old by (simp add: nth)
    show "u = v"
    proof (cases "u = w")
      case uw: True
      with u aw have i: "i = idx s" by (simp add: nth)
      show ?thesis
      proof (cases "v = w")
        case True
        with uw show ?thesis by simp
      next
        case False
        with lt [of v i c] v aw i show ?thesis by simp
      qed
    next
      case uw: False
      show ?thesis
      proof (cases "v = w")
        case True
        with v aw have "i = idx s" by (simp add: nth)
        with lt [of u i b] u uw aw show ?thesis by simp
      next
        case False
        with uw u v aw uniq [of u v i b c] show ?thesis by (simp add: nth)
      qed
    qed
  qed
  have f: "\<forall>i<idx ?t. \<not> awaiting ?t i \<longrightarrow> js_get (out ?t) i = Some (enriched all evaluated i)"
  proof (intro allI impI)
    fix i assume i: "i < idx ?t" and na: "\<not> awaiting ?t i"
    have "awaiting ?t (idx s)" using w(1) by (auto simp: awaiting_def nth)
    with na i have lt: "i < idx s" by (cases "i = idx s") auto
    have "\<not> awaiting s i"
    proof
      assume "awaiting s i"
      then obtain v b where v: "v < length (workers s)" "workers s ! v = Awaiting i b"
        by (auto simp: awaiting_def)
      with w(2) have "v \<noteq> w" by auto
      with v have "awaiting ?t i" by (auto simp: awaiting_def nth)
      with na show False by simp
    qed
    with inv lt show "js_get (out ?t) i = Some (enriched all evaluated i)"
      by (simp add: pool_inv_def)
  qed
  have g: "Finished \<in> set (workers ?t) \<longrightarrow> idx ?t = length all"
  proof
    assume "Finished \<in> set (workers ?t)"
    then obtain v where v: "v < length ?ws" "?ws ! v = Finished" by (auto simp: in_set_conv_nth)
    then have "v \<noteq> w" by (auto simp: nth)
    with v have "workers s ! v = Finished" "v < length (workers s)" by (simp_all add: nth)
    then have "Finished \<in> set (workers s)" by (auto simp: in_set_conv_nth)
    with inv have "idx s = length all" by (simp add: pool_inv_def)
    with w(3) show "idx ?t = length all" by simp
  qed
  show ?thesis unfolding pool_inv_def using a b c d e f g by blast
qed

lemma pool_inv_leave:
  assumes inv: "pool_inv all evaluated s"
    and w: "w < length (workers s)" "workers s ! w = Ready" "\<not> idx s < length all"
  shows "pool_inv all evaluated (s\<lparr> workers := (workers s)[w := Finished] \<rparr>)"
    (is "pool_inv all evaluated ?t")
proof -
  let ?ws = "(workers s)[w := Finished]"
  have nth: "\<And>v. v < length (workers s) \<Longrightarrow>
               ?ws ! v = (if v = w then Finished else workers s ! v)"
    by (simp add: nth_list_update)
  have same: "\<And>v i b. v < length (workers s) \<Longrightarrow>
                (?ws ! v = Awaiting i b) = (workers s ! v = Awaiting i b)"
    using w(2) by (auto simp: nth)
  have aw: "\<And>i. awaiting ?t i = awaiting s i"
    using same by (auto simp: awaiting_def)
  have full: "idx s = length all" using inv w(3) by (simp add: pool_inv_def)
  have uniq: "\<And>u v i b c. u < length (workers s) \<Longrightarrow> v < length (workers s) \<Longrightarrow>
               workers s ! u = Awaiting i b \<Longrightarrow> workers s ! v = Awaiting i c \<Longrightarrow> u = v"
    using inv unfolding pool_inv_def by blast
  have d: "\<forall>v<length (workers ?t). \<forall>i b. workers ?t ! v = Awaiting i b \<longrightarrow>
             i < idx ?t \<and> b = all ! i \<and> js_get (out ?t) i = None"
    using inv same by (simp add: pool_inv_def)
  have e: "\<forall>u<length (workers ?t). \<forall>v<length (workers ?t). \<forall>i b c.
             workers ?t ! u = Awaiting i b \<and> workers ?t ! v = Awaiting i c \<longrightarrow> u = v"
  proof (intro allI impI)
    fix u v i b c
    assume u: "u < length (workers ?t)" and v: "v < length (workers ?t)"
      and a: "workers ?t ! u = Awaiting i b \<and> workers ?t ! v = Awaiting i c"
    then have "workers s ! u = Awaiting i b" "workers s ! v = Awaiting i c"
      using same by simp_all
    with uniq [of u v i b c] u v show "u = v" by simp
  qed
  have f: "\<forall>i<idx ?t. \<not> awaiting ?t i \<longrightarrow> js_get (out ?t) i = Some (enriched all evaluated i)"
    using inv aw by (simp add: pool_inv_def)
  show ?thesis
    unfolding pool_inv_def using inv d e f full by (simp add: pool_inv_def)
qed

lemma pool_inv_resume:
  assumes inv: "pool_inv all evaluated s"
    and w: "w < length (workers s)" "workers s ! w = Awaiting i b"
  shows "pool_inv all evaluated
           (s\<lparr> out := js_store (out s) i (scrapeDetailsViaApi (evaluated i) b),
               workers := (workers s)[w := Ready] \<rparr>)"
    (is "pool_inv all evaluated ?t")
proof -
  let ?ws = "(workers s)[w := Ready]"
  have old: "\<And>v j c. v < length (workers s) \<Longrightarrow> workers s ! v = Awaiting j c \<Longrightarrow>
               j < idx s \<and> c = all ! j \<and> js_get (out s) j = None"
    using inv by (simp add: pool_inv_def)
  have uniq: "\<And>u v j c d. u < length (workers s) \<Longrightarrow> v < length (workers s) \<Longrightarrow>
               workers s ! u = Awaiting j c \<Longrightarrow> workers s ! v = Awaiting j d \<Longrightarrow> u = v"
    using inv unfolding pool_inv_def by blast
  have i: "i < idx s" "b = all ! i" using old [OF w] by simp_all
  have nth: "\<And>v. v < length (workers s) \<Longrightarrow> ?ws ! v = (if v = w then Ready else workers s ! v)"
    by (simp add: nth_list_update)
  have other: "\<And>v j c. v < length (workers s) \<Longrightarrow> ?ws ! v = Awaiting j c \<Longrightarrow>
                 v \<noteq> w \<and> workers s ! v = Awaiting j c \<and> j \<noteq> i"
  proof -
    fix v j c assume v: "v < length (workers s)" and a: "?ws ! v = Awaiting j c"
    then have vw: "v \<noteq> w" by (auto simp: nth)
    with v a have s: "workers s ! v = Awaiting j c" by (simp add: nth)
    have "j \<noteq> i"
    proof
      assume "j = i"
      with uniq [OF v w(1)] s w(2) have "v = w" by simp
      with vw show False by simp
    qed
    with vw s show "v \<noteq> w \<and> workers s ! v = Awaiting j c \<and> j \<noteq> i" by simp
  qed
  have a: "idx ?t \<le> length all" using inv by (simp add: pool_inv_def)
  have b: "calls ?t = [0..<idx ?t]" using inv by (simp add: pool_inv_def)
  have c: "length (out ?t) \<le> idx ?t" using inv i(1) by (simp add: pool_inv_def length_js_store)
  have d: "\<forall>v<length (workers ?t). \<forall>j c. workers ?t ! v = Awaiting j c \<longrightarrow>
             j < idx ?t \<and> c = all ! j \<and> js_get (out ?t) j = None"
  proof (intro allI impI)
    fix v j c assume v: "v < length (workers ?t)" and aw: "workers ?t ! v = Awaiting j c"
    from other [of v j c] v aw
    have o: "workers s ! v = Awaiting j c" "j \<noteq> i" "v < length (workers s)" by simp_all
    from old [OF o(3,1)] o(2) show "j < idx ?t \<and> c = all ! j \<and> js_get (out ?t) j = None"
      by (simp add: js_get_store)
  qed
  have e: "\<forall>u<length (workers ?t). \<forall>v<length (workers ?t). \<forall>j c d.
             workers ?t ! u = Awaiting j c \<and> workers ?t ! v = Awaiting j d \<longrightarrow> u = v"
  proof (intro allI impI)
    fix u v j c d
    assume u: "u < length (workers ?t)" and v: "v < length (workers ?t)"
      and aw: "workers ?t ! u = Awaiting j c \<and> workers ?t ! v = Awaiting j d"
    from other [of u j c] other [of v j d] u v aw
    have "workers s ! u = Awaiting j c" "workers s ! v = Awaiting j d" by simp_all
    with uniq [of u v j c d] u v show "u = v" by simp
  qed
  have f: "\<forall>j<idx ?t. \<not> awaiting ?t j \<longrightarrow> js_get (out ?t) j = Some (enriched all evaluated j)"
  proof (intro allI impI)
    fix j assume j: "j < idx ?t" and na: "\<not> awaiting ?t j"
    show "js_get (out ?t) j = Some (enriched all evaluated j)"
    proof (cases "j = i")
      case True
      then show ?thesis using i(2) by (simp add: js_get_store enriched_def)
    next
      case False
      have "\<not> awaiting s j"
      proof
        assume "awaiting s j"
        then obtain v c where v: "v < length (workers s)" "workers s ! v = Awaiting j c"
          by (auto simp: awaiting_def)
        with w(2) False have "v \<noteq> w" by auto
        with v have "awaiting ?t j" by (auto simp: awaiting_def nth)
        with na show False by simp
      qed
      with inv j False show ?thesis by (simp add: pool_inv_def js_get_store)
    qed
  qed
  have g: "Finished \<in> set (workers ?t) \<longrightarrow> idx ?t = length all"
  proof
    assume "Finished \<in> set (workers ?t)"
    then obtain v where v: "v < length ?ws" "?ws ! v = Finished" by (auto simp: in_set_conv_nth)
    then have "v \<noteq> w" by (auto simp: nth)
    with v have "workers s ! v = Finished" "v < length (workers s)" by (simp_all add: nth)
    then have "Finished \<in> set (workers s)" by (auto simp: in_set_conv_nth)
    with inv show "idx ?t = length all" by (simp add: pool_inv_def)
  qed
  show ?thesis unfolding pool_inv_def using a b c d e f g by blast
qed

lemma pool_inv_step:
  assumes "pool_inv all evaluated s"
  shows "pool_inv all evaluated (worker_step all evaluated w s)"
proof (cases "w < length (workers s)")
  case False
  then show ?thesis using assms by (simp add: idle_step)
next
  case True
  show ?thesis
  proof (cases "workers s ! w")
    case Ready
    show ?thesis
    proof (cases "idx s < length all")
      case lt: True
      show ?thesis
        unfolding claim_step [OF True Ready lt] by (rule pool_inv_claim [OF assms True Ready lt])
    next
      case ge: False
      show ?thesis
        unfolding leave_step [OF True Ready ge] by (rule pool_inv_leave [OF assms True Ready ge])
    qed
  next
    case (Awaiting i b)
    show ?thesis
      unfolding resume_step [OF True Awaiting] by (rule pool_inv_resume [OF assms True Awaiting])
  next
    case Finished
    then show ?thesis using assms by (simp add: idle_step)
  qed
qed

lemma pool_inv_run:
  "pool_inv all evaluated s \<Longrightarrow> pool_inv all evaluated (run_schedule all evaluated schedule s)"
  by (induction schedule arbitrary: s) (simp_all add: pool_inv_step)

lemma length_workers_step: "length (workers (worker_step all evaluated w s)) = length (workers s)"
  by (simp add: worker_step_def split: worker.split)

lemma length_workers_run:
  "length (workers (run_schedule all evaluated schedule s)) = length (workers s)"
  by (induction schedule arbitrary: s) (simp_all add: length_workers_step)

lemma pool_final:
  assumes inv: "pool_inv all evaluated s" and dn: "pool_done s" and ne: "workers s \<noteq> []"
  shows "out s = map (\<lambda>i. Some (enriched all evaluated i)) [0..<length all]"
proof -
  have fin: "\<And>w. w \<in> set (workers s) \<Longrightarrow> w = Finished"
    using dn by (simp add: pool_done_def list_all_iff)
  from ne obtain w where "w \<in> set (workers s)" by (cases "workers s") auto
  with fin have "Finished \<in> set (workers s)" by auto
  with inv have full: "idx s = length all" by (simp add: pool_inv_def)
  have na: "\<And>i. \<not> awaiting s i"
  proof
    fix i assume "awaiting s i"
    then obtain v b where "v < length (workers s)" "workers s ! v = Awaiting i b"
      by (auto simp: awaiting_def)
    with fin [OF nth_mem, of v] show False by simp
  qed
  have get: "\<And>i. i < length all \<Longrightarrow> js_get (out s) i = Some (enriched all evaluated i)"
    using inv full na by (simp add: pool_inv_def)
  have le: "length (out s) \<le> length all" using inv full by (simp add: pool_inv_def)
  have ge: "length all \<le> length (out s)"
  proof (cases "length all")
    case 0
    then show ?thesis by simp
  next
    case (Suc n)
    with get [of n] have "js_get (out s) n \<noteq> None" by simp
    then have "n < length (out s)" by (simp add: js_get_def split: if_splits)
    with Suc show ?thesis by simp
  qed
  show ?thesis
  proof (rule nth_equalityI)
    show "length (out s) = length (map (\<lambda>i. Some (enriched all evaluated i)) [0..<length all])"
      using le ge by simp
  next
    fix i assume "i < length (out s)"
    with le have i: "i < length all" by simp
    with get [of i] \<open>i < length (out s)\<close>
    show "out s ! i = map (\<lambda>i. Some (enriched all evaluated i)) [0..<length all] ! i"
      by (simp add: js_get_def)
  qed
qed

lemma weight_update:
  "w < length ws \<Longrightarrow>
     sum_list (map worker_weight (ws[w := y])) + worker_weight (ws ! w) =
     sum_list (map worker_weight ws) + worker_weight y"
proof (induction ws arbitrary: w)
  case Nil
  then show ?case by simp
next
  case (Cons x xs)
  show ?case
  proof (cases w)
    case 0
    then show ?thesis by simp
  next
    case (Suc v)
    with Cons.prems have "v < length xs" by simp
    from Cons.IH [OF this] Suc show ?thesis by simp
  qed
qed

lemma step_decreases:
  assumes w: "w < length (workers s)" and nf: "workers s ! w \<noteq> Finished"
  shows "pool_measure all (worker_step all evaluated w s) < pool_measure all s"
proof (cases "workers s ! w")
  case Ready
  show ?thesis
  proof (cases "idx s < length all")
    case lt: True
    from weight_update [OF w, of "Awaiting (idx s) (all ! idx s)"] Ready
    have "sum_list (map worker_weight ((workers s)[w := Awaiting (idx s) (all ! idx s)])) =
            sum_list (map worker_weight (workers s)) + 1" by simp
    with lt show ?thesis
      unfolding claim_step [OF w Ready lt] by (simp add: pool_measure_def)
  next
    case ge: False
    from weight_update [OF w, of Finished] Ready
    have "sum_list (map worker_weight ((workers s)[w := Finished])) + 1 =
            sum_list (map worker_weight (workers s))" by simp
    then show ?thesis
      unfolding leave_step [OF w Ready ge] by (simp add: pool_measure_def)
  qed
next
  case (Awaiting i b)
  from weight_update [OF w, of Ready] Awaiting
  have "sum_list (map worker_weight ((workers s)[w := Ready])) + 1 =
          sum_list (map worker_weight (workers s))" by simp
  then show ?thesis
    unfolding resume_step [OF w Awaiting] by (simp add: pool_measure_def)
next
  case Finished
  with nf show ?thesis by simp
qed

lemma pool_can_finish: "\<exists>schedule. pool_done (run_schedule all evaluated schedule s)"
proof (induction "pool_measure all s" arbitrary: s rule: less_induct)
  case less
  show ?case
  proof (cases "pool_done s")
    case True
    then have "pool_done (run_schedule all evaluated [] s)" by simp
    then show ?thesis by blast
  next
    case False
    then obtain w where w: "w < length (workers s)" "workers s ! w \<noteq> Finished"
      by (auto simp: pool_done_def list_all_length)
    from less [OF step_decreases [OF w]] obtain schedule where
      "pool_done (run_schedule all evaluated schedule (worker_step all evaluated w s))" by blast
    then have "pool_done (run_schedule all evaluated (w # schedule) s)" by simp
    then show ?thesis by blast
  qed
qed

lemma pool_partial:
  assumes inv: "pool_inv all evaluated s"
  shows "js_get (out s) i = None \<or> js_get (out s) i = Some (enriched all evaluated i)"
proof (cases "i < idx s")
  case False
  with inv have "\<not> i < length (out s)" by (simp add: pool_inv_def)
  then show ?thesis by (simp add: js_get_def)
next
  case True
  show ?thesis
  proof (cases "awaiting s i")
    case True
    then obtain v b where "v < length (workers s)" "workers s ! v = Awaiting i b"
      by (auto simp: awaiting_def)
    with inv show ?thesis by (simp add: pool_inv_def)
  next
    case False
    with inv True show ?thesis by (simp add: pool_inv_def)
  qed
qed

lemma scrapeDetailsViaApi_keeps:
  "listing_id (scrapeDetailsViaApi e b) = listing_id b \<and>
   contract_number (scrapeDetailsViaApi e b) = contract_number b \<and>
   contract_title (scrapeDetailsViaApi e b) = contract_title b \<and>
   bookmarkable_link_url (scrapeDetailsViaApi e b) = bookmarkable_link_url b"
  by (simp add: scrapeDetailsViaApi_def split: sum.split)

text \<open>
  \<^bold>\<open>C3.\<close> Whatever the order in which the workers take their turns, no index is
  claimed twice (the calls are for different indices of the list), a slot of \<open>out\<close> is
  empty or holds the result for the input record at the same index, and when every worker
  has returned \<open>out\<close> holds, slot by slot, the results for the input records; a result
  keeps the id, number, title and link of its input record.
\<close>

theorem pool_output_by_index:
  fixes all :: "listing list" and evaluated schedule c
  defines "s \<equiv> run_schedule all evaluated schedule (pool_init c)"
  shows "distinct (calls s) \<and> set (calls s) \<subseteq> {0..<length all} \<and>
    (\<forall>i. js_get (out s) i = None \<or>
         js_get (out s) i = Some (scrapeDetailsViaApi (evaluated i) (all ! i))) \<and>
    (0 < c \<and> pool_done s \<longrightarrow>
       calls s = [0..<length all] \<and>
       out s = map (\<lambda>i. Some (scrapeDetailsViaApi (evaluated i) (all ! i))) [0..<length all]) \<and>
    (\<forall>i. listing_id (scrapeDetailsViaApi (evaluated i) (all ! i)) = listing_id (all ! i) \<and>
         contract_number (scrapeDetailsViaApi (evaluated i) (all ! i)) = contract_number (all ! i) \<and>
         contract_title (scrapeDetailsViaApi (evaluated i) (all ! i)) = contract_title (all ! i) \<and>
         bookmarkable_link_url (scrapeDetailsViaApi (evaluated i) (all ! i)) =
           bookmarkable_link_url (all ! i))"
proof -
  have inv: "pool_inv all evaluated s"
    unfolding s_def by (rule pool_inv_run [OF pool_inv_init])
  have calls: "calls s = [0..<idx s]" and le: "idx s \<le> length all"
    using inv by (simp_all add: pool_inv_def)
  have a: "distinct (calls s)" by (simp add: calls)
  have b: "set (calls s) \<subseteq> {0..<length all}" using le by (auto simp: calls)
  have c: "\<forall>i. js_get (out s) i = None \<or>
             js_get (out s) i = Some (scrapeDetailsViaApi (evaluated i) (all ! i))"
    using pool_partial [OF inv] by (simp add: enriched_def)
  have d: "0 < c \<and> pool_done s \<longrightarrow>
       calls s = [0..<length all] \<and>
       out s = map (\<lambda>i. Some (scrapeDetailsViaApi (evaluated i) (all ! i))) [0..<length all]"
  proof
    assume h: "0 < c \<and> pool_done s"
    have "length (workers s) = c"
      unfolding s_def by (simp add: length_workers_run pool_init_def)
    with h have ne: "workers s \<noteq> []" by auto
    have o: "out s = map (\<lambda>i. Some (enriched all evaluated i)) [0..<length all]"
      using pool_final [OF inv _ ne] h by simp
    have "Finished \<in> set (workers s)"
      using ne h by (cases "workers s") (auto simp: pool_done_def)
    with inv have "idx s = length all" by (simp add: pool_inv_def)
    with calls o show "calls s = [0..<length all] \<and>
       out s = map (\<lambda>i. Some (scrapeDetailsViaApi (evaluated i) (all ! i))) [0..<length all]"
      by (simp add: enriched_def)
  qed
  show ?thesis using a b c d scrapeDetailsViaApi_keeps by blast
qed

theorem pool_output_by_index_witness:
  "0 < DETAILS_CONCURRENCY \<and>
   pool_done (enrich sample_records sample_outcomes [0, 1, 2, 3, 2, 2, 0, 0, 1, 1]) \<and>
   calls (enrich sample_records sample_outcomes [0, 1, 2, 3, 2, 2, 0, 0, 1, 1]) = [0, 1, 2] \<and>
   out (enrich sample_records sample_outcomes [0, 1, 2, 3, 2, 2, 0, 0, 1, 1]) =
     [Some (scrapeDetailsViaApi (sample_outcomes 0) (numbered_listing 0)),
      Some (scrapeDetailsViaApi (sample_outcomes 1) (numbered_listing 1)),
      Some (scrapeDetailsViaApi (sample_outcomes 2) (numbered_listing 2))]"
proof -
  let ?s = "enrich sample_records sample_outcomes [0, 1, 2, 3, 2, 2, 0, 0, 1, 1]"
  have c: "0 < DETAILS_CONCURRENCY" by (simp add: DETAILS_CONCURRENCY_def)
  have d: "pool_done ?s" by code_simp
  have l: "[0..<length sample_records] = [0, 1, 2]" by code_simp
  from pool_output_by_index [of sample_records sample_outcomes
      "[0, 1, 2, 3, 2, 2, 0, 0, 1, 1]" DETAILS_CONCURRENCY] c d
  have "calls ?s = [0..<length sample_records]"
    "out ?s = map (\<lambda>i. Some (scrapeDetailsViaApi (sample_outcomes i) (sample_records ! i)))
       [0..<length sample_records]"
    unfolding enrich_def by blast+
  then show ?thesis using c d unfolding l by (simp add: sample_records_def)
qed

lemma error_text_nonempty: "err_name e \<noteq> [] \<or> err_message e \<noteq> [] \<Longrightarrow> error_text e \<noteq> []"
  by (auto simp: error_text_def error_toString_def)

lemma run_schedule_append:
  "run_schedule all evaluated (xs @ ys) s =
     run_schedule all evaluated ys (run_schedule all evaluated xs s)"
  by (induction xs arbitrary: s) simp_all

lemma pool_reachable_final:
  assumes c: "0 < c" and dn: "pool_done (run_schedule all evaluated schedule (pool_init c))"
  shows "out (run_schedule all evaluated schedule (pool_init c)) =
           map (\<lambda>j. Some (scrapeDetailsViaApi (evaluated j) (all ! j))) [0..<length all]"
proof -
  let ?s = "run_schedule all evaluated schedule (pool_init c)"
  have inv: "pool_inv all evaluated ?s" by (rule pool_inv_run [OF pool_inv_init])
  have "length (workers ?s) = c" by (simp add: length_workers_run pool_init_def)
  with c have ne: "workers ?s \<noteq> []" by auto
  from pool_final [OF inv dn ne] show ?thesis by (simp add: enriched_def)
qed

text \<open>
  \<^bold>\<open>C4.\<close> When the call for record \<open>i\<close> raises an exception, it is caught: the
  call returns the record unchanged but for \<open>_detail_error\<close>, which holds the text of the
  exception (not empty when the exception has a name or a message), and the worker
  suspended in that call is back at its loop test on its next turn, with the record written
  to slot \<open>i\<close>. After any turns taken so far the pool can be run to completion, and it then
  holds the failing record at index \<open>i\<close> and every other record with the result of its own
  call. Whenever all workers have returned, the failing record is emitted at its index,
  \<open>out\<close> is as long as the input, and every other record is emitted with the result of its
  own call, the successful ones with their email and files.
\<close>

theorem enrichment_failure_isolated:
  fixes all :: "listing list"
  assumes c: "0 < c"
    and i: "i < length all" "listing_id (all ! i) \<noteq> []" and fail: "evaluated i = Inl e"
  shows "scrapeDetailsViaApi (evaluated i) (all ! i) =
      (all ! i)\<lparr> detail_error := Some (error_text e) \<rparr> \<and>
    (err_name e \<noteq> [] \<or> err_message e \<noteq> [] \<longrightarrow> error_text e \<noteq> []) \<and>
    (\<forall>s w b. w < length (workers s) \<and> workers s ! w = Awaiting i b \<longrightarrow>
        workers (worker_step all evaluated w s) ! w = Ready \<and>
        js_get (out (worker_step all evaluated w s)) i = Some (scrapeDetailsViaApi (Inl e) b)) \<and>
    (\<forall>schedule. \<exists>more.
        pool_done (run_schedule all evaluated (schedule @ more) (pool_init c)) \<and>
        out (run_schedule all evaluated (schedule @ more) (pool_init c)) ! i =
          Some ((all ! i)\<lparr> detail_error := Some (error_text e) \<rparr>) \<and>
        out (run_schedule all evaluated (schedule @ more) (pool_init c)) =
          map (\<lambda>j. Some (scrapeDetailsViaApi (evaluated j) (all ! j))) [0..<length all]) \<and>
    (\<forall>schedule. pool_done (run_schedule all evaluated schedule (pool_init c)) \<longrightarrow>
        out (run_schedule all evaluated schedule (pool_init c)) ! i =
          Some ((all ! i)\<lparr> detail_error := Some (error_text e) \<rparr>) \<and>
        length (out (run_schedule all evaluated schedule (pool_init c))) = length all \<and>
        (\<forall>j<length all. j \<noteq> i \<longrightarrow>
            out (run_schedule all evaluated schedule (pool_init c)) ! j =
              Some (scrapeDetailsViaApi (evaluated j) (all ! j))) \<and>
        (\<forall>j<length all. \<forall>d. evaluated j = Inr d \<and> listing_id (all ! j) \<noteq> [] \<longrightarrow>
            out (run_schedule all evaluated schedule (pool_init c)) ! j =
              Some ((all ! j)\<lparr> contact_email := detail_contact_email d,
                                files := detail_files d \<rparr>)))"
proof -
  have caught: "scrapeDetailsViaApi (evaluated i) (all ! i) =
      (all ! i)\<lparr> detail_error := Some (error_text e) \<rparr>"
    using i(2) fail by (simp add: scrapeDetailsViaApi_def)
  have nonempty: "err_name e \<noteq> [] \<or> err_message e \<noteq> [] \<longrightarrow> error_text e \<noteq> []"
    using error_text_nonempty by blast
  have resume: "\<forall>s w b. w < length (workers s) \<and> workers s ! w = Awaiting i b \<longrightarrow>
        workers (worker_step all evaluated w s) ! w = Ready \<and>
        js_get (out (worker_step all evaluated w s)) i = Some (scrapeDetailsViaApi (Inl e) b)"
  proof (intro allI impI)
    fix s :: pool and w b
    assume h: "w < length (workers s) \<and> workers s ! w = Awaiting i b"
    then have w: "w < length (workers s)" and a: "workers s ! w = Awaiting i b" by simp_all
    show "workers (worker_step all evaluated w s) ! w = Ready \<and>
        js_get (out (worker_step all evaluated w s)) i = Some (scrapeDetailsViaApi (Inl e) b)"
      unfolding resume_step [OF w a] using w fail by (simp add: js_get_store)
  qed
  have final: "\<And>schedule. pool_done (run_schedule all evaluated schedule (pool_init c)) \<Longrightarrow>
      out (run_schedule all evaluated schedule (pool_init c)) =
        map (\<lambda>j. Some (scrapeDetailsViaApi (evaluated j) (all ! j))) [0..<length all]"
    by (rule pool_reachable_final [OF c])
  have completes: "\<forall>schedule. \<exists>more.
        pool_done (run_schedule all evaluated (schedule @ more) (pool_init c)) \<and>
        out (run_schedule all evaluated (schedule @ more) (pool_init c)) ! i =
          Some ((all ! i)\<lparr> detail_error := Some (error_text e) \<rparr>) \<and>
        out (run_schedule all evaluated (schedule @ more) (pool_init c)) =
          map (\<lambda>j. Some (scrapeDetailsViaApi (evaluated j) (all ! j))) [0..<length all]"
  proof
    fix schedule
    from pool_can_finish [of all evaluated "run_schedule all evaluated schedule (pool_init c)"]
    obtain more where
      "pool_done (run_schedule all evaluated more (run_schedule all evaluated schedule (pool_init c)))"
      by blast
    then have dn: "pool_done (run_schedule all evaluated (schedule @ more) (pool_init c))"
      by (simp add: run_schedule_append)
    from final [OF dn] have o: "out (run_schedule all evaluated (schedule @ more) (pool_init c)) =
          map (\<lambda>j. Some (scrapeDetailsViaApi (evaluated j) (all ! j))) [0..<length all]" .
    have "out (run_schedule all evaluated (schedule @ more) (pool_init c)) ! i =
          Some ((all ! i)\<lparr> detail_error := Some (error_text e) \<rparr>)"
      unfolding o using i(1) caught by simp
    with dn o show "\<exists>more.
        pool_done (run_schedule all evaluated (schedule @ more) (pool_init c)) \<and>
        out (run_schedule all evaluated (schedule @ more) (pool_init c)) ! i =
          Some ((all ! i)\<lparr> detail_error := Some (error_text e) \<rparr>) \<and>
        out (run_schedule all evaluated (schedule @ more) (pool_init c)) =
          map (\<lambda>j. Some (scrapeDetailsViaApi (evaluated j) (all ! j))) [0..<length all]"
      by blast
  qed
  have every: "\<forall>schedule. pool_done (run_schedule all evaluated schedule (pool_init c)) \<longrightarrow>
        out (run_schedule all evaluated schedule (pool_init c)) ! i =
          Some ((all ! i)\<lparr> detail_error := Some (error_text e) \<rparr>) \<and>
        length (out (run_schedule all evaluated schedule (pool_init c))) = length all \<and>
        (\<forall>j<length all. j \<noteq> i \<longrightarrow>
            out (run_schedule all evaluated schedule (pool_init c)) ! j =
              Some (scrapeDetailsViaApi (evaluated j) (all ! j))) \<and>
        (\<forall>j<length all. \<forall>d. evaluated j = Inr d \<and> listing_id (all ! j) \<noteq> [] \<longrightarrow>
            out (run_schedule all evaluated schedule (pool_init c)) ! j =
              Some ((all ! j)\<lparr> contact_email := detail_contact_email d,
                                files := detail_files d \<rparr>))"
  proof (intro allI impI)
    fix schedule
    assume dn: "pool_done (run_schedule all evaluated schedule (pool_init c))"
    let ?s = "run_schedule all evaluated schedule (pool_init c)"
    note o = final [OF dn]
    have nth: "\<And>j. j < length all \<Longrightarrow> out ?s ! j = Some (scrapeDetailsViaApi (evaluated j) (all ! j))"
      by (simp add: o)
    have a: "out ?s ! i = Some ((all ! i)\<lparr> detail_error := Some (error_text e) \<rparr>)"
      using nth [OF i(1)] caught by simp
    have b: "length (out ?s) = length all" by (simp add: o)
    have d: "\<forall>j<length all. \<forall>d. evaluated j = Inr d \<and> listing_id (all ! j) \<noteq> [] \<longrightarrow>
        out ?s ! j = Some ((all ! j)\<lparr> contact_email := detail_contact_email d,
                                      files := detail_files d \<rparr>)"
      using nth by (simp add: scrapeDetailsViaApi_def)
    show "out ?s ! i = Some ((all ! i)\<lparr> detail_error := Some (error_text e) \<rparr>) \<and>
        length (out ?s) = length all \<and>
        (\<forall>j<length all. j \<noteq> i \<longrightarrow> out ?s ! j = Some (scrapeDetailsViaApi (evaluated j) (all ! j))) \<and>
        (\<forall>j<length all. \<forall>d. evaluated j = Inr d \<and> listing_id (all ! j) \<noteq> [] \<longrightarrow>
            out ?s ! j = Some ((all ! j)\<lparr> contact_email := detail_contact_email d,
                                files := detail_files d \<rparr>))"
      using a b d nth by blast
  qed
  show ?thesis using caught nonempty resume completes every by blast
qed

theorem enrichment_failure_isolated_witness:
  "(0::nat) < 2 \<and> (1::nat) < length sample_records \<and>
   listing_id (sample_records ! 1) = ''xx'' \<and>
   sample_outcomes 1 = Inl (JsError ''Error'' ''Fetch failed 500 for /Bids/GetBidDetail?id=xx'') \<and>
   (\<exists>more. pool_done (run_schedule sample_records sample_outcomes ([0, 1, 1] @ more) (pool_init 2)) \<and>
      out (run_schedule sample_records sample_outcomes ([0, 1, 1] @ more) (pool_init 2)) ! 1 =
        Some ((numbered_listing 1)
          \<lparr>detail_error := Some ''Fetch failed 500 for /Bids/GetBidDetail?id=xx''\<rparr>)) \<and>
   pool_done (run_schedule sample_records sample_outcomes [0, 1, 1, 1, 0, 0, 1, 1] (pool_init 2)) \<and>
   out (run_schedule sample_records sample_outcomes [0, 1, 1, 1, 0, 0, 1, 1] (pool_init 2)) ! 1 =
     Some ((numbered_listing 1)
       \<lparr>detail_error := Some ''Fetch failed 500 for /Bids/GetBidDetail?id=xx''\<rparr>) \<and>
   out (run_schedule sample_records sample_outcomes [0, 1, 1, 1, 0, 0, 1, 1] (pool_init 2)) ! 2 =
     Some ((numbered_listing 2)
       \<lparr>contact_email := ''buyer@example.org'',
        files := [\<lparr>title = ''Bid form'', Url = ''https://example.org/form.pdf''\<rparr>]\<rparr>) \<and>
   length (out (run_schedule sample_records sample_outcomes [0, 1, 1, 1, 0, 0, 1, 1] (pool_init 2))) = 3"
proof -
  let ?s = "run_schedule sample_records sample_outcomes [0, 1, 1, 1, 0, 0, 1, 1] (pool_init 2)"
  let ?e = "JsError ''Error'' ''Fetch failed 500 for /Bids/GetBidDetail?id=xx''"
  have c: "(0::nat) < 2" by simp
  have d: "pool_done ?s" by code_simp
  have i: "(1::nat) < length sample_records" by (simp add: sample_records_def)
  have id1: "listing_id (sample_records ! 1) = ''xx''" by code_simp
  then have ne: "listing_id (sample_records ! 1) \<noteq> []" by simp
  have f: "sample_outcomes 1 = Inl ?e" by (simp add: sample_outcomes_def)
  have two: "(2::nat) < length sample_records" by (simp add: sample_records_def)
  have ok: "sample_outcomes 2 = Inr \<lparr>detail_contact_email = ''buyer@example.org'',
                detail_files = [\<lparr>title = ''Bid form'', Url = ''https://example.org/form.pdf''\<rparr>]\<rparr>"
    by (simp add: sample_outcomes_def)
  have id2: "listing_id (sample_records ! 2) \<noteq> []" by code_simp
  have t: "error_text ?e = ''Fetch failed 500 for /Bids/GetBidDetail?id=xx''"
    by (simp add: error_text_def)
  have r1: "sample_records ! 1 = numbered_listing 1" by (simp add: sample_records_def)
  have r2: "sample_records ! 2 = numbered_listing 2" by (simp add: sample_records_def)
  note main = enrichment_failure_isolated [of 2 1 sample_records sample_outcomes ?e, OF c i ne f]
  from main have "\<exists>more.
      pool_done (run_schedule sample_records sample_outcomes ([0, 1, 1] @ more) (pool_init 2)) \<and>
      out (run_schedule sample_records sample_outcomes ([0, 1, 1] @ more) (pool_init 2)) ! 1 =
        Some ((sample_records ! 1)\<lparr> detail_error := Some (error_text ?e) \<rparr>)"
    by blast
  then have ex: "\<exists>more.
      pool_done (run_schedule sample_records sample_outcomes ([0, 1, 1] @ more) (pool_init 2)) \<and>
      out (run_schedule sample_records sample_outcomes ([0, 1, 1] @ more) (pool_init 2)) ! 1 =
        Some ((numbered_listing 1)
          \<lparr>detail_error := Some ''Fetch failed 500 for /Bids/GetBidDetail?id=xx''\<rparr>)"
    unfolding t r1 .
  from main d have a: "out ?s ! 1 = Some ((sample_records ! 1)\<lparr> detail_error := Some (error_text ?e) \<rparr>)"
    by blast
  from main d have b: "length (out ?s) = length sample_records" by blast
  from main d have "\<forall>j<length sample_records. \<forall>d. sample_outcomes j = Inr d \<and>
        listing_id (sample_records ! j) \<noteq> [] \<longrightarrow>
        out ?s ! j = Some ((sample_records ! j)\<lparr> contact_email := detail_contact_email d,
                                      files := detail_files d \<rparr>)" by blast
  with two ok id2 have c2: "out ?s ! 2 = Some ((sample_records ! 2)\<lparr> contact_email := ''buyer@example.org'',
             files := [\<lparr>title = ''Bid form'', Url = ''https://example.org/form.pdf''\<rparr>] \<rparr>)"
    by auto
  have len: "length sample_records = 3" by (simp add: sample_records_def)
  show ?thesis using c i id1 f ex d a b c2 unfolding t r1 r2 len by blast
qed

end
